theory Spec2Isabelle
  imports Complex_Main "HOL-Library.Multiset" "HOL-Library.Char_ord" "HOL-Library.List_Lexorder"
begin

section \<open>Floating-point numbers\<close>

text \<open>
  Go's \<open>float32\<close> and \<open>float64\<close> are the IEEE 754 formats binary32 and binary64. A value
  is a finite number, an infinity or NaN; the two zeros are not told apart (they compare
  equal, and the sign of a zero shows only in a division by zero). The finite values of a
  format with precision \<open>p\<close> are the numbers \<open>n * 2\<^sup>q\<close> with \<open>\<bar>n\<bar> < 2\<^sup>p\<close> and
  \<open>qmin \<le> q \<le> qmax\<close>. An operation computes the exact result and rounds it to the
  nearest value of the format, ties to the even one; what lies beyond the largest finite
  value becomes an infinity.
\<close>

datatype float = Num real | PosInf | NegInf | NaN

definition round_half_even :: "real \<Rightarrow> int" where
  "round_half_even y =
     (let f = \<lfloor>y\<rfloor>; r = y - of_int f
      in if r < 1 / 2 then f else if 1 / 2 < r then f + 1 else if even f then f else f + 1)"

text \<open>The magnitude \<open>a > 0\<close> rounded to \<open>p\<close> significant bits, with no exponent below
  \<open>qmin\<close>.\<close>

definition round_mag :: "int \<Rightarrow> int \<Rightarrow> real \<Rightarrow> real" where
  "round_mag p qmin a =
     (let q = max qmin (\<lfloor>log 2 a\<rfloor> - (p - 1))
      in of_int (round_half_even (a / 2 powr of_int q)) * 2 powr of_int q)"

definition round_to :: "int \<Rightarrow> int \<Rightarrow> int \<Rightarrow> real \<Rightarrow> float" where
  "round_to p qmin qmax x =
     (if x = 0 then Num 0
      else let v = round_mag p qmin \<bar>x\<bar>
           in if 2 powr of_int (qmax + p) \<le> v then (if x < 0 then NegInf else PosInf)
              else Num (if x < 0 then - v else v))"

definition r32 :: "real \<Rightarrow> float" where
  "r32 = round_to 24 (- 149) 104"

definition r64 :: "real \<Rightarrow> float" where
  "r64 = round_to 53 (- 1074) 971"

definition is_neg :: "float \<Rightarrow> bool" where
  "is_neg x = (case x of Num r \<Rightarrow> r < 0 | NegInf \<Rightarrow> True | _ \<Rightarrow> False)"

definition signed_inf :: "bool \<Rightarrow> float" where
  "signed_inf neg = (if neg then NegInf else PosInf)"

text \<open>The arithmetic of a format, given its rounding \<open>rnd\<close> (\<open>r32\<close> or \<open>r64\<close>).\<close>

fun fadd :: "(real \<Rightarrow> float) \<Rightarrow> float \<Rightarrow> float \<Rightarrow> float" where
  "fadd rnd NaN y = NaN"
| "fadd rnd x NaN = NaN"
| "fadd rnd (Num x) (Num y) = rnd (x + y)"
| "fadd rnd PosInf NegInf = NaN"
| "fadd rnd NegInf PosInf = NaN"
| "fadd rnd (Num x) y = y"
| "fadd rnd x y = x"

fun fmul :: "(real \<Rightarrow> float) \<Rightarrow> float \<Rightarrow> float \<Rightarrow> float" where
  "fmul rnd NaN y = NaN"
| "fmul rnd x NaN = NaN"
| "fmul rnd (Num x) (Num y) = rnd (x * y)"
| "fmul rnd x y =
     (if x = Num 0 \<or> y = Num 0 then NaN else signed_inf (is_neg x \<noteq> is_neg y))"

fun fdiv :: "(real \<Rightarrow> float) \<Rightarrow> float \<Rightarrow> float \<Rightarrow> float" where
  "fdiv rnd NaN y = NaN"
| "fdiv rnd x NaN = NaN"
| "fdiv rnd (Num x) (Num y) =
     (if y = 0 then (if x = 0 then NaN else signed_inf (x < 0)) else rnd (x / y))"
| "fdiv rnd (Num x) y = Num 0"
| "fdiv rnd x (Num y) = signed_inf (is_neg x \<noteq> (y < 0))"
| "fdiv rnd x y = NaN"

text \<open>\<open>math.Sqrt\<close>.\<close>

fun fsqrt :: "(real \<Rightarrow> float) \<Rightarrow> float \<Rightarrow> float" where
  "fsqrt rnd (Num x) = (if x < 0 then NaN else rnd (sqrt x))"
| "fsqrt rnd PosInf = PosInf"
| "fsqrt rnd NegInf = NaN"
| "fsqrt rnd NaN = NaN"

text \<open>The comparisons \<open><\<close>, \<open>\<le>\<close> and \<open>==\<close>: each is false when an operand is NaN.\<close>

fun flt :: "float \<Rightarrow> float \<Rightarrow> bool" where
  "flt NaN y = False"
| "flt x NaN = False"
| "flt (Num x) (Num y) = (x < y)"
| "flt x NegInf = False"
| "flt PosInf y = False"
| "flt x y = True"

fun fle :: "float \<Rightarrow> float \<Rightarrow> bool" where
  "fle NaN y = False"
| "fle x NaN = False"
| "fle (Num x) (Num y) = (x \<le> y)"
| "fle NegInf y = True"
| "fle x PosInf = True"
| "fle x y = False"

definition feq :: "float \<Rightarrow> float \<Rightarrow> bool" where
  "feq x y \<longleftrightarrow> x \<noteq> NaN \<and> x = y"

text \<open>The conversions \<open>float32(x)\<close> of a \<open>float64\<close>, which rounds, and \<open>float64(x)\<close> of a
  \<open>float32\<close>, which keeps the value.\<close>

definition to_float32 :: "float \<Rightarrow> float" where
  "to_float32 x = (case x of Num r \<Rightarrow> r32 r | _ \<Rightarrow> x)"

definition to_float64 :: "float \<Rightarrow> float" where
  "to_float64 x = x"

section \<open>Data model of the vector store (package vectorstore)\<close>

text \<open>
  Go's \<open>time.Time\<close> is an instant; it is modelled as the number of nanoseconds since Go's
  zero instant, so that \<open>t.IsZero()\<close> is \<open>t = 0\<close> and \<open>a.After(b)\<close> is \<open>b < a\<close>.
  Strings are byte lists.
\<close>

type_synonym time = int

definition IsZero :: "time \<Rightarrow> bool" where
  "IsZero t \<longleftrightarrow> t = 0"

definition After :: "time \<Rightarrow> time \<Rightarrow> bool" where
  "After a b \<longleftrightarrow> b < a"

text \<open>The errors the two packages return. The store builds them with \<open>errors.New\<close> and
  \<open>fmt.Errorf\<close>; the embedder returns \<open>ctx.Err()\<close>.\<close>

datatype error =
    StoreClosed             \<comment> \<open>\<open>errors.New("store is closed")\<close>\<close>
  | ItemNotFound string     \<comment> \<open>\<open>fmt.Errorf("item with ID %s not found", id)\<close>\<close>
  | ItemExpired string      \<comment> \<open>\<open>fmt.Errorf("item with ID %s has expired", id)\<close>\<close>
  | Canceled                \<comment> \<open>\<open>context.Canceled\<close>\<close>
  | DeadlineExceeded        \<comment> \<open>\<open>context.DeadlineExceeded\<close>\<close>

record Config =
  InMemory :: bool
  Address :: string
  Collection :: string
  VectorSize :: int
  TTL :: int

record Item =
  ID :: string
  Vector :: "float list"
  DocumentID :: string
  Content :: string
  Title :: string
  Metadata :: "string \<rightharpoonup> string"
  Permissions :: "string list"
  ExpiresAt :: time

text \<open>\<open>SearchParams\<close>: the fields \<open>Vector\<close>, \<open>Limit\<close>, \<open>PermissionFilter\<close>.\<close>

record SearchParams =
  p_Vector :: "float list"
  p_Limit :: int
  p_PermissionFilter :: "string list"

text \<open>The store's \<open>SearchResult\<close>: the fields \<open>ID\<close>, \<open>DocumentID\<close>, \<open>Content\<close>, \<open>Title\<close>,
  \<open>Metadata\<close>, \<open>Score\<close>.\<close>

record SearchResult =
  r_ID :: string
  r_DocumentID :: string
  r_Content :: string
  r_Title :: string
  r_Metadata :: "string \<rightharpoonup> string"
  r_Score :: float

record scoredItem =
  item :: Item
  score :: float

text \<open>
  \<open>QdrantStore\<close>. The lock is not modelled: every operation holds it from entry to
  return, so that each operation is one atomic step on this state. \<open>closeChan\<close> is closed
  exactly when the flag \<open>closed\<close> is set. The \<open>nil\<close> map that \<open>Close\<close> leaves behind is
  the empty map (it is only ever read afterwards).
\<close>

record QdrantStore =
  config :: Config
  items :: "string \<rightharpoonup> Item"
  closed_flag :: bool

definition NewQdrantStore :: "Config \<Rightarrow> QdrantStore" where
  "NewQdrantStore c = \<lparr>config = c, items = Map.empty, closed_flag = False\<rparr>"

section \<open>Store operations\<close>

text \<open>Each mutating operation returns the new state and the \<open>error\<close> result
  (\<open>None\<close> is Go's \<open>nil\<close>).\<close>

definition Store :: "QdrantStore \<Rightarrow> Item \<Rightarrow> QdrantStore \<times> error option" where
  "Store s it =
     (if closed_flag s then (s, Some StoreClosed)
      else (s\<lparr>items := (items s)(ID it \<mapsto> it)\<rparr>, None))"

definition expired :: "time \<Rightarrow> Item \<Rightarrow> bool" where
  "expired now it \<longleftrightarrow> \<not> IsZero (ExpiresAt it) \<and> After now (ExpiresAt it)"

definition Get :: "time \<Rightarrow> QdrantStore \<Rightarrow> string \<Rightarrow> error + Item" where
  "Get now s id' =
     (if closed_flag s then Inl StoreClosed
      else case items s id' of
             None \<Rightarrow> Inl (ItemNotFound id')
           | Some it \<Rightarrow> if expired now it then Inl (ItemExpired id') else Inr it)"

definition Delete :: "QdrantStore \<Rightarrow> string \<Rightarrow> QdrantStore \<times> error option" where
  "Delete s id' =
     (if closed_flag s then (s, Some StoreClosed)
      else (s\<lparr>items := (items s)(id' := None)\<rparr>, None))"

definition Close :: "QdrantStore \<Rightarrow> QdrantStore \<times> error option" where
  "Close s =
     (if closed_flag s then (s, None)
      else (s\<lparr>closed_flag := True, items := Map.empty\<rparr>, None))"

text \<open>One pass of the background sweep: every item whose expiry is set and has passed is
  deleted. The order in which the range visits the keys does not matter here.\<close>

definition cleanupExpiredItems :: "time \<Rightarrow> QdrantStore \<Rightarrow> QdrantStore" where
  "cleanupExpiredItems now s =
     s\<lparr>items := (\<lambda>k. case items s k of
                         None \<Rightarrow> None
                       | Some it \<Rightarrow> if expired now it then None else Some it)\<rparr>"

section \<open>Similarity and ranking\<close>

text \<open>The store's own \<open>sqrt\<close>: \<open>return float64(float32(x))\<close>. (The name \<open>sqrt\<close> is HOL's
  square root, hence the suffix.)\<close>

definition sqrt_poc :: "float \<Rightarrow> float" where
  "sqrt_poc x = to_float64 (to_float32 x)"

text \<open>The accumulation loop of \<open>cosineSimilarity\<close>, from index \<open>i\<close> on, over the three
  accumulators \<open>dotProduct\<close>, \<open>normA\<close>, \<open>normB\<close> (of type \<open>float64\<close>). The products are
  products of \<open>float32\<close> values, rounded to \<open>float32\<close>, then widened. The loop runs to
  \<open>len(a)\<close>; the caller has checked \<open>len(a) = len(b)\<close> before.\<close>

function cosine_loop ::
  "float list \<Rightarrow> float list \<Rightarrow> nat \<Rightarrow> float \<times> float \<times> float \<Rightarrow> float \<times> float \<times> float" where
  "cosine_loop a b i (dotProduct, normA, normB) =
     (if i < length a
      then cosine_loop a b (i + 1)
             (fadd r64 dotProduct (to_float64 (fmul r32 (a ! i) (b ! i))),
              fadd r64 normA (to_float64 (fmul r32 (a ! i) (a ! i))),
              fadd r64 normB (to_float64 (fmul r32 (b ! i) (b ! i))))
      else (dotProduct, normA, normB))"
  by pat_completeness auto
termination
  by (relation "measure (\<lambda>(a, b, i, acc). length a - i)") auto

declare cosine_loop.simps [simp del]

text \<open>The divisor of the final quotient: \<open>sqrt(normA) * sqrt(normB)\<close>.\<close>

definition cosine_divisor :: "float \<Rightarrow> float \<Rightarrow> float" where
  "cosine_divisor normA normB = fmul r64 (sqrt_poc normA) (sqrt_poc normB)"

definition cosineSimilarity :: "float list \<Rightarrow> float list \<Rightarrow> float" where
  "cosineSimilarity a b =
     (if length a \<noteq> length b then Num 0
      else case cosine_loop a b 0 (Num 0, Num 0, Num 0) of
             (dotProduct, normA, normB) \<Rightarrow>
               if feq normA (Num 0) \<or> feq normB (Num 0) then Num 0
               else fdiv r64 dotProduct (cosine_divisor normA normB))"

text \<open>\<open>sortScored\<close>: the inner loop over \<open>j\<close> from a given \<open>j\<close> on, and the outer loop over
  \<open>i\<close>. A swap is two updates by index. The test is the \<open>float64\<close> comparison
  \<open>items[i].score < items[j].score\<close>, which is false whenever a score is NaN.\<close>

function sortScored_inner :: "nat \<Rightarrow> nat \<Rightarrow> scoredItem list \<Rightarrow> scoredItem list" where
  "sortScored_inner i j xs =
     (if j < length xs
      then sortScored_inner i (j + 1)
             (if flt (score (xs ! i)) (score (xs ! j)) then xs[i := xs ! j, j := xs ! i] else xs)
      else xs)"
  by pat_completeness auto
termination
  by (relation "measure (\<lambda>(i, j, xs). length xs - j)") auto

declare sortScored_inner.simps [simp del]

lemma length_sortScored_inner [simp]: "length (sortScored_inner i j xs) = length xs"
proof (induction i j xs rule: sortScored_inner.induct)
  case (1 i j xs)
  show ?case
  proof (cases "j < length xs")
    case True
    with "1.IH" show ?thesis
      by (subst sortScored_inner.simps) simp
  next
    case False
    then show ?thesis
      by (subst sortScored_inner.simps) simp
  qed
qed

function sortScored_outer :: "nat \<Rightarrow> scoredItem list \<Rightarrow> scoredItem list" where
  "sortScored_outer i xs =
     (if i < length xs then sortScored_outer (i + 1) (sortScored_inner i (i + 1) xs) else xs)"
  by pat_completeness auto
termination
  by (relation "measure (\<lambda>(i, xs). length xs - i)") auto

declare sortScored_outer.simps [simp del]

definition sortScored :: "scoredItem list \<Rightarrow> scoredItem list" where
  "sortScored xs = sortScored_outer 0 xs"

section \<open>Search\<close>

text \<open>The permission check: for each entry of the filter, the item's permissions are
  scanned for an equal one; both loops stop at the first hit.\<close>

fun itemPerm_loop :: "string \<Rightarrow> string list \<Rightarrow> bool" where
  "itemPerm_loop permission [] = False"
| "itemPerm_loop permission (itemPerm # rest) =
     (if permission = itemPerm then True else itemPerm_loop permission rest)"

fun hasPermission :: "string list \<Rightarrow> string list \<Rightarrow> bool" where
  "hasPermission [] perms = False"
| "hasPermission (permission # rest) perms =
     (if itemPerm_loop permission perms then True else hasPermission rest perms)"

text \<open>
  The scan \<open>for _, item := range s.items\<close>. Go leaves the order of a range over a map
  unspecified, so the order the keys are visited in is an argument: \<open>ks\<close>, a list of the
  map's keys, each once (\<open>iteration_order\<close>). The clock is read once: \<open>now\<close>.
\<close>

definition iteration_order :: "(string \<rightharpoonup> Item) \<Rightarrow> string list \<Rightarrow> bool" where
  "iteration_order m ks \<longleftrightarrow> distinct ks \<and> set ks = dom m"

fun scan :: "time \<Rightarrow> SearchParams \<Rightarrow> (string \<rightharpoonup> Item) \<Rightarrow> string list \<Rightarrow> scoredItem list" where
  "scan now params m [] = []"
| "scan now params m (k # ks) =
     (case m k of
        None \<Rightarrow> scan now params m ks
      | Some it \<Rightarrow>
          if expired now it then scan now params m ks
          else if length (p_PermissionFilter params) > 0
                  \<and> \<not> hasPermission (p_PermissionFilter params) (Permissions it)
          then scan now params m ks
          else \<lparr>item = it, score = cosineSimilarity (p_Vector params) (Vector it)\<rparr>
                 # scan now params m ks)"

definition limit_results :: "int \<Rightarrow> scoredItem list \<Rightarrow> scoredItem list" where
  "limit_results n scored =
     (if n > 0 \<and> int (length scored) > n then take (nat n) scored else scored)"

definition to_result :: "scoredItem \<Rightarrow> SearchResult" where
  "to_result s =
     \<lparr>r_ID = ID (item s), r_DocumentID = DocumentID (item s), r_Content = Content (item s),
      r_Title = Title (item s), r_Metadata = Metadata (item s), r_Score = score s\<rparr>"

definition Search ::
  "time \<Rightarrow> QdrantStore \<Rightarrow> SearchParams \<Rightarrow> string list \<Rightarrow> error + SearchResult list" where
  "Search now s params ks =
     (if closed_flag s then Inl StoreClosed
      else Inr (map to_result
                 (limit_results (p_Limit params)
                    (sortScored (scan now params (items s) ks)))))"

section \<open>Sequences of calls on one store\<close>

text \<open>
  The store is used through its five methods and swept by its background routine. A call
  carries the clock reading at which it runs; for a \<open>Search\<close> it also carries the order in
  which the range visits the keys.
\<close>

datatype call =
    CallStore Item
  | CallGet string
  | CallDelete string
  | CallSearch SearchParams "string list"
  | CallClose
  | CallSweep

datatype reply =
    ReplyError "error option"
  | ReplyItem "error + Item"
  | ReplyResults "error + SearchResult list"
  | ReplyNothing

fun step :: "QdrantStore \<Rightarrow> time \<times> call \<Rightarrow> QdrantStore \<times> reply" where
  "step s (now, CallStore it) = (case Store s it of (s', e) \<Rightarrow> (s', ReplyError e))"
| "step s (now, CallGet k) = (s, ReplyItem (Get now s k))"
| "step s (now, CallDelete k) = (case Delete s k of (s', e) \<Rightarrow> (s', ReplyError e))"
| "step s (now, CallSearch params ks) = (s, ReplyResults (Search now s params ks))"
| "step s (now, CallClose) = (case Close s of (s', e) \<Rightarrow> (s', ReplyError e))"
| "step s (now, CallSweep) = (cleanupExpiredItems now s, ReplyNothing)"

fun run :: "QdrantStore \<Rightarrow> (time \<times> call) list \<Rightarrow> QdrantStore \<times> reply list" where
  "run s [] = (s, [])"
| "run s (c # cs) =
     (case step s c of (s', r) \<Rightarrow> (case run s' cs of (s'', rs) \<Rightarrow> (s'', r # rs)))"

text \<open>What each call answers on a closed store.\<close>

fun closed_reply :: "time \<times> call \<Rightarrow> reply" where
  "closed_reply (now, CallStore it) = ReplyError (Some StoreClosed)"
| "closed_reply (now, CallGet k) = ReplyItem (Inl StoreClosed)"
| "closed_reply (now, CallDelete k) = ReplyError (Some StoreClosed)"
| "closed_reply (now, CallSearch params ks) = ReplyResults (Inl StoreClosed)"
| "closed_reply (now, CallClose) = ReplyError None"
| "closed_reply (now, CallSweep) = ReplyNothing"

text \<open>A call that can remove or replace the item stored under \<open>k\<close>: a \<open>Delete\<close> of \<open>k\<close>, a
  \<open>Store\<close> of an item with that id, a \<open>Close\<close>, or a sweep at a time when \<open>it\<close> has expired.\<close>

fun disturbs :: "Item \<Rightarrow> time \<times> call \<Rightarrow> bool" where
  "disturbs it (now, CallStore it') = (ID it' = ID it)"
| "disturbs it (now, CallDelete k) = (k = ID it)"
| "disturbs it (now, CallClose) = True"
| "disturbs it (now, CallSweep) = expired now it"
| "disturbs it (now, CallGet k) = False"
| "disturbs it (now, CallSearch params ks) = False"

section \<open>The dimension invariant\<close>

text \<open>Every stored item's vector has the configured length \<open>Config.VectorSize\<close>.\<close>

definition dimension_ok :: "QdrantStore \<Rightarrow> bool" where
  "dimension_ok s \<longleftrightarrow> (\<forall>it\<in>ran (items s). int (length (Vector it)) = VectorSize (config s))"

text \<open>A call that hands the store no vector of another length.\<close>

fun fitting :: "Config \<Rightarrow> time \<times> call \<Rightarrow> bool" where
  "fitting c (now, CallStore it) = (int (length (Vector it)) = VectorSize c)"
| "fitting c (now, CallGet k) = True"
| "fitting c (now, CallDelete k) = True"
| "fitting c (now, CallSearch params ks) = True"
| "fitting c (now, CallClose) = True"
| "fitting c (now, CallSweep) = True"

section \<open>Example data\<close>

definition example_config :: Config where
  "example_config = \<lparr>InMemory = True, Address = [], Collection = [], VectorSize = 2, TTL = 1800\<rparr>"

definition item_X :: Item where
  "item_X = \<lparr>ID = ''X'', Vector = [Num 1, Num 0], DocumentID = ''doc'', Content = ''hello'',
     Title = ''t'', Metadata = Map.empty, Permissions = [''u1''], ExpiresAt = 10\<rparr>"

definition item_short :: Item where
  "item_short = \<lparr>ID = ''S'', Vector = [Num 1], DocumentID = ''doc'', Content = ''hello'',
     Title = ''t'', Metadata = Map.empty, Permissions = [''u1''], ExpiresAt = 0\<rparr>"

section \<open>Eligibility and ranking, as the specification words them\<close>

text \<open>An item is eligible for a search when its expiry has not passed and, when the
  permission filter is not empty, its permission set intersects the filter.\<close>

definition eligible :: "time \<Rightarrow> SearchParams \<Rightarrow> Item \<Rightarrow> bool" where
  "eligible now params it \<longleftrightarrow>
     \<not> expired now it
     \<and> (p_PermissionFilter params \<noteq> [] \<longrightarrow>
          set (Permissions it) \<inter> set (p_PermissionFilter params) \<noteq> {})"

text \<open>The items the range visits, in the order \<open>ks\<close>, and the eligible ones among them.\<close>

definition visited :: "(string \<rightharpoonup> Item) \<Rightarrow> string list \<Rightarrow> Item list" where
  "visited m ks = List.map_filter m ks"

definition eligible_items :: "time \<Rightarrow> SearchParams \<Rightarrow> (string \<rightharpoonup> Item) \<Rightarrow> string list \<Rightarrow> Item list" where
  "eligible_items now params m ks = filter (eligible now params) (visited m ks)"

text \<open>The result record of an item under a query: its fields and its similarity to the
  query vector.\<close>

definition result_of :: "SearchParams \<Rightarrow> Item \<Rightarrow> SearchResult" where
  "result_of params it =
     to_result \<lparr>item = it, score = cosineSimilarity (p_Vector params) (Vector it)\<rparr>"

text \<open>The order the specification gives for the results: score descending, ties by id ascending (ids
  compared as byte strings).\<close>

definition score_then_id :: "SearchResult \<Rightarrow> SearchResult \<Rightarrow> bool" where
  "score_then_id x y \<longleftrightarrow>
     flt (r_Score y) (r_Score x) \<or> (feq (r_Score y) (r_Score x) \<and> r_ID x \<le> r_ID y)"

text \<open>Example data: two items with the same vector, two more that score lower, a store
  of the first two and one of the last three, and queries.\<close>

definition item_A :: Item where
  "item_A = \<lparr>ID = ''A'', Vector = [Num 1, Num 0], DocumentID = ''docA'', Content = ''alpha'',
     Title = ''a'', Metadata = Map.empty, Permissions = [''u1''], ExpiresAt = 0\<rparr>"

definition item_B :: Item where
  "item_B = \<lparr>ID = ''B'', Vector = [Num 1, Num 0], DocumentID = ''docB'', Content = ''beta'',
     Title = ''b'', Metadata = Map.empty, Permissions = [''u2''], ExpiresAt = 0\<rparr>"

definition store_AB :: QdrantStore where
  "store_AB = fst (Store (fst (Store (NewQdrantStore example_config) item_A)) item_B)"

definition query_all :: SearchParams where
  "query_all = \<lparr>p_Vector = [Num 1, Num 0], p_Limit = 0, p_PermissionFilter = []\<rparr>"

definition query_u1 :: SearchParams where
  "query_u1 = \<lparr>p_Vector = [Num 1, Num 0], p_Limit = 0, p_PermissionFilter = [''u1'']\<rparr>"

definition item_C :: Item where
  "item_C = \<lparr>ID = ''C'', Vector = [Num 2, Num 0], DocumentID = ''docC'', Content = ''gamma'',
     Title = ''c'', Metadata = Map.empty, Permissions = [''u1''], ExpiresAt = 0\<rparr>"

definition item_D :: Item where
  "item_D = \<lparr>ID = ''D'', Vector = [Num 4, Num 0], DocumentID = ''docD'', Content = ''delta'',
     Title = ''d'', Metadata = Map.empty, Permissions = [''u1''], ExpiresAt = 0\<rparr>"

definition store_BCD :: QdrantStore where
  "store_BCD =
     fst (Store (fst (Store (fst (Store (NewQdrantStore example_config) item_B)) item_C)) item_D)"

definition query_top2 :: SearchParams where
  "query_top2 = \<lparr>p_Vector = [Num 1, Num 0], p_Limit = 2, p_PermissionFilter = []\<rparr>"

text \<open>Example data: a query and an item whose \<open>float32\<close> product overflows, an item
  whose product does not, and a number whose \<open>float32\<close> square underflows.\<close>

definition two_40 :: real where
  "two_40 = 2 ^ 40"

definition two_100 :: real where
  "two_100 = 2 ^ 100"

definition half_80 :: real where
  "half_80 = 1 / 2 ^ 80"

definition item_huge :: Item where
  "item_huge = \<lparr>ID = ''H'', Vector = [Num two_100], DocumentID = ''docH'', Content = ''huge'',
     Title = ''h'', Metadata = Map.empty, Permissions = [], ExpiresAt = 0\<rparr>"

definition item_one :: Item where
  "item_one = \<lparr>ID = ''O'', Vector = [Num 1], DocumentID = ''docO'', Content = ''one'',
     Title = ''o'', Metadata = Map.empty, Permissions = [], ExpiresAt = 0\<rparr>"

definition store_HO :: QdrantStore where
  "store_HO = fst (Store (fst (Store (NewQdrantStore example_config) item_huge)) item_one)"

definition query_big :: SearchParams where
  "query_big = \<lparr>p_Vector = [Num two_40], p_Limit = 0, p_PermissionFilter = []\<rparr>"

section \<open>The embedder (package search)\<close>

text \<open>
  \<open>Embedder\<close> has one field. \<open>Embed\<close> first polls the context: \<open>ctx\<close> is \<open>None\<close> while the
  context is not done and \<open>Some err\<close>, with \<open>err = ctx.Err()\<close>, once it is. The values
  \<open>r.NormFloat64()\<close> come from \<open>math/rand\<close>, seeded with a number computed from the text
  alone; the library is not modelled, and the stream is an argument: \<open>gen text i\<close> is the
  \<open>i\<close>-th value drawn for \<open>text\<close>.
\<close>

record Embedder =
  vectorSize :: nat

definition NewEmbedder :: Embedder where
  "NewEmbedder = \<lparr>vectorSize = 384\<rparr>"

definition embedding_of :: "(string \<Rightarrow> nat \<Rightarrow> float) \<Rightarrow> Embedder \<Rightarrow> string \<Rightarrow> float list" where
  "embedding_of gen e text =
     (let embedding = map (\<lambda>i. to_float32 (gen text i)) [0..<vectorSize e];
          sum = foldl (\<lambda>sum v. fadd r64 sum (to_float64 (fmul r32 v v))) (Num 0) embedding;
          norm = to_float32 (fsqrt r64 sum)
      in if flt (Num 0) norm then map (\<lambda>v. fdiv r32 v norm) embedding else embedding)"

definition Embed ::
  "(string \<Rightarrow> nat \<Rightarrow> float) \<Rightarrow> Embedder \<Rightarrow> error option \<Rightarrow> string \<Rightarrow> error + float list" where
  "Embed gen e ctx text =
     (case ctx of
        Some err \<Rightarrow> Inl err
      | None \<Rightarrow> Inr (embedding_of gen e text))"

text \<open>The method \<open>VectorSize()\<close> of the embedder (the plain name is the field of
  \<open>Config\<close>).\<close>

definition VectorSize_of :: "Embedder \<Rightarrow> int" where
  "VectorSize_of e = int (vectorSize e)"

section \<open>The document processor's chunking (package document)\<close>

text \<open>\<open>ProcessorResult\<close>: the fields \<open>DocumentID\<close>, \<open>Title\<close>, \<open>Content\<close> (the chunks),
  \<open>Metadata\<close>.\<close>

record ProcessorResult =
  doc_DocumentID :: string
  doc_Title :: string
  doc_Content :: "string list"
  doc_Metadata :: "string \<rightharpoonup> string"

text \<open>\<open>strings.Fields\<close> on ASCII text: the maximal runs of non-space bytes. (The two
  non-ASCII spaces of Latin-1 and the Unicode spaces are not modelled.)\<close>

definition isSpace :: "char \<Rightarrow> bool" where
  "isSpace c \<longleftrightarrow> c \<in> {CHR '' '', CHR 0x09, CHR 0x0A, CHR 0x0B, CHR 0x0C, CHR 0x0D}"

fun Fields_from :: "string \<Rightarrow> string \<Rightarrow> string list" where
  "Fields_from w [] = (if w = [] then [] else [w])"
| "Fields_from w (c # cs) =
     (if isSpace c then (if w = [] then Fields_from [] cs else w # Fields_from [] cs)
      else Fields_from (w @ [c]) cs)"

definition Fields :: "string \<Rightarrow> string list" where
  "Fields s = Fields_from [] s"

fun Join :: "string list \<Rightarrow> string \<Rightarrow> string" where
  "Join [] sep = []"
| "Join [w] sep = w"
| "Join (w # ws) sep = w @ sep @ Join ws sep"

text \<open>
  The loop of \<open>chunkContent\<close>: \<open>for i := 0; i < len(words); i += p.chunkSize\<close>. With
  \<open>chunkSize = 0\<close> it never ends (the result is \<open>None\<close>); with a negative \<open>chunkSize\<close> the
  slice expression \<open>words[i:end]\<close> panics.
\<close>

datatype panic = SliceBoundsOutOfRange

partial_function (option) chunk_loop ::
  "int \<Rightarrow> string list \<Rightarrow> int \<Rightarrow> string list \<Rightarrow> (panic + string list) option" where
  "chunk_loop chunkSize words i chunks =
     (if i < int (length words)
      then (let end = (if i + chunkSize > int (length words) then int (length words)
                       else i + chunkSize)
            in if end < i then Some (Inl SliceBoundsOutOfRange)
               else chunk_loop chunkSize words (i + chunkSize)
                      (chunks @ [Join (take (nat (end - i)) (drop (nat i) words)) '' '']))
      else Some (Inr chunks))"

definition chunkContent :: "int \<Rightarrow> string \<Rightarrow> (panic + string list) option" where
  "chunkContent chunkSize content = chunk_loop chunkSize (Fields content) 0 []"

section \<open>The engine (package search)\<close>

text \<open>\<open>SearchRequest\<close>: the fields \<open>Query\<close>, \<open>UserID\<close>, \<open>Permissions\<close>, \<open>Limit\<close>.\<close>

record SearchRequest =
  req_Query :: string
  req_UserID :: string
  req_Permissions :: "string list"
  req_Limit :: int

text \<open>The engine's \<open>SearchResult\<close>: the fields \<open>DocumentID\<close>, \<open>Title\<close>, \<open>ChunkContent\<close>,
  \<open>Score\<close>, \<open>Metadata\<close>.\<close>

record EngineResult =
  e_DocumentID :: string
  e_Title :: string
  e_ChunkContent :: string
  e_Score :: float
  e_Metadata :: "string \<rightharpoonup> string"

text \<open>What the engine logs: "Error embedding chunk %d of document %s: %v" and "Failed to
  store vector for chunk %d of document %s: %v".\<close>

datatype log_entry =
    EmbedError nat string error
  | StoreError nat string error

text \<open>\<open>Engine\<close>. The logger is the caller's \<open>*log.Logger\<close>, taken to be a logger (on a
  \<open>nil\<close> one the first \<open>Printf\<close> panics); it is modelled by the list of the entries printed
  so far, and \<open>NewEngine\<close> starts with none. Durations are in nanoseconds.\<close>

record Engine =
  embedder :: Embedder
  vectorStore :: QdrantStore
  ttl :: int
  logger :: "log_entry list"

definition minutes :: "int \<Rightarrow> int" where
  "minutes n = n * 60 * 1000000000"

definition NewEngine :: Engine where
  "NewEngine =
     (let embedder = NewEmbedder;
          vectorStore = NewQdrantStore
            \<lparr>InMemory = True, Address = [], Collection = [],
             VectorSize = VectorSize_of embedder, TTL = minutes 30\<rparr>
      in \<lparr>embedder = embedder, vectorStore = vectorStore, ttl = minutes 30, logger = []\<rparr>)"

text \<open>
  Go's conversion \<open>string(i)\<close> of an integer: the UTF-8 encoding of the code point \<open>i\<close>,
  and of U+FFFD when \<open>i\<close> is not a valid code point.
\<close>

definition rune_string :: "int \<Rightarrow> string" where
  "rune_string r =
     (if r < 0 \<or> 0x10FFFF < r \<or> (0xD800 \<le> r \<and> r \<le> 0xDFFF)
      then [CHR 0xEF, CHR 0xBF, CHR 0xBD]
      else if r < 0x80 then [char_of r]
      else if r < 0x800 then [char_of (0xC0 + r div 0x40), char_of (0x80 + r mod 0x40)]
      else if r < 0x10000
      then [char_of (0xE0 + r div 0x1000), char_of (0x80 + r div 0x40 mod 0x40),
            char_of (0x80 + r mod 0x40)]
      else [char_of (0xF0 + r div 0x40000), char_of (0x80 + r div 0x1000 mod 0x40),
            char_of (0x80 + r div 0x40 mod 0x40), char_of (0x80 + r mod 0x40)])"

text \<open>\<open>chunkID := doc.DocumentID + "-" + string(i)\<close>.\<close>

definition chunkID :: "ProcessorResult \<Rightarrow> nat \<Rightarrow> string" where
  "chunkID doc i = doc_DocumentID doc @ ''-'' @ rune_string (int i)"

text \<open>The item \<open>IndexDocument\<close> stores for chunk \<open>i\<close>, once its embedding is there.\<close>

definition chunk_item ::
  "Engine \<Rightarrow> ProcessorResult \<Rightarrow> string list \<Rightarrow> time \<Rightarrow> nat \<Rightarrow> string \<Rightarrow> float list \<Rightarrow> Item" where
  "chunk_item e doc userPermissions now i chunk embedding =
     \<lparr>ID = chunkID doc i, Vector = embedding, DocumentID = doc_DocumentID doc,
      Content = chunk, Title = doc_Title doc, Metadata = doc_Metadata doc,
      Permissions = userPermissions, ExpiresAt = now + ttl e\<rparr>"

text \<open>
  The loop of \<open>IndexDocument\<close> from chunk \<open>i\<close> on, over the chunks left. The context and
  the clock are read once per chunk: \<open>ctx i\<close> and \<open>now i\<close> are their states at chunk \<open>i\<close>.
  The store is shared with other goroutines. Every method of the store runs under its
  lock, so what the others do while this call runs falls between this call's own \<open>Store\<close>
  calls: \<open>others i\<close> are the calls of other goroutines that take effect after the
  previous chunk and before the \<open>Store\<close> of chunk \<open>i\<close>. The result is the store as the
  call leaves it, the log and the error returned.
\<close>

fun IndexDocument_loop ::
  "(string \<Rightarrow> nat \<Rightarrow> float) \<Rightarrow> (nat \<Rightarrow> error option) \<Rightarrow> (nat \<Rightarrow> time) \<Rightarrow>
   (nat \<Rightarrow> (time \<times> call) list) \<Rightarrow> Engine \<Rightarrow> ProcessorResult \<Rightarrow> string list \<Rightarrow>
   nat \<Rightarrow> string list \<Rightarrow> QdrantStore \<Rightarrow> log_entry list \<Rightarrow>
   QdrantStore \<times> log_entry list \<times> error option" where
  "IndexDocument_loop gen ctx now others e doc userPermissions i [] s lg = (s, lg, None)"
| "IndexDocument_loop gen ctx now others e doc userPermissions i (chunk # rest) s lg =
     (let s = fst (run s (others i))
      in case Embed gen (embedder e) (ctx i) chunk of
           Inl err \<Rightarrow>
             IndexDocument_loop gen ctx now others e doc userPermissions (i + 1) rest s
               (lg @ [EmbedError i (doc_DocumentID doc) err])
         | Inr embedding \<Rightarrow>
             (case Store s (chunk_item e doc userPermissions (now i) i chunk embedding) of
                (s', Some err) \<Rightarrow> (s', lg @ [StoreError i (doc_DocumentID doc) err], Some err)
              | (s', None) \<Rightarrow>
                  IndexDocument_loop gen ctx now others e doc userPermissions (i + 1) rest s' lg))"

text \<open>\<open>IndexDocument\<close> while other goroutines use the store, and \<open>IndexDocument\<close> when
  no one else does.\<close>

definition IndexDocument_among ::
  "(string \<Rightarrow> nat \<Rightarrow> float) \<Rightarrow> (nat \<Rightarrow> error option) \<Rightarrow> (nat \<Rightarrow> time) \<Rightarrow>
   (nat \<Rightarrow> (time \<times> call) list) \<Rightarrow> Engine \<Rightarrow> ProcessorResult \<Rightarrow> string list \<Rightarrow>
   Engine \<times> error option" where
  "IndexDocument_among gen ctx now others e doc userPermissions =
     (case IndexDocument_loop gen ctx now others e doc userPermissions 0 (doc_Content doc)
             (vectorStore e) (logger e) of
        (s', lg, err) \<Rightarrow> (e\<lparr>vectorStore := s', logger := lg\<rparr>, err))"

definition IndexDocument ::
  "(string \<Rightarrow> nat \<Rightarrow> float) \<Rightarrow> (nat \<Rightarrow> error option) \<Rightarrow> (nat \<Rightarrow> time) \<Rightarrow> Engine \<Rightarrow>
   ProcessorResult \<Rightarrow> string list \<Rightarrow> Engine \<times> error option" where
  "IndexDocument gen ctx now e doc userPermissions =
     IndexDocument_among gen ctx now (\<lambda>i. []) e doc userPermissions"

text \<open>The entries the loop logs for the chunks \<open>i, \<dots>, i + n - 1\<close> whose embedding fails.\<close>

definition embed_errors :: "ProcessorResult \<Rightarrow> (nat \<Rightarrow> error option) \<Rightarrow> nat \<Rightarrow> nat \<Rightarrow> log_entry list" where
  "embed_errors doc ctx i n =
     concat (map (\<lambda>j. case ctx j of None \<Rightarrow> [] | Some err \<Rightarrow> [EmbedError j (doc_DocumentID doc) err])
               [i..<i + n])"


text \<open>
  \<open>Engine.Search\<close>. The request is passed by pointer and written to, so the request as
  the caller finds it afterwards is part of the result. \<open>ks\<close> is the order in which the
  store's scan visits its keys.
\<close>

definition to_engine_result :: "SearchResult \<Rightarrow> EngineResult" where
  "to_engine_result r =
     \<lparr>e_DocumentID = r_DocumentID r, e_Title = r_Title r, e_ChunkContent = r_Content r,
      e_Score = r_Score r, e_Metadata = r_Metadata r\<rparr>"

definition Engine_Search ::
  "(string \<Rightarrow> nat \<Rightarrow> float) \<Rightarrow> error option \<Rightarrow> time \<Rightarrow> Engine \<Rightarrow> SearchRequest \<Rightarrow> string list \<Rightarrow>
   SearchRequest \<times> (error + EngineResult list)" where
  "Engine_Search gen ctx now e req ks =
     (case Embed gen (embedder e) ctx (req_Query req) of
        Inl err \<Rightarrow> (req, Inl err)
      | Inr queryEmbedding \<Rightarrow>
          (let req' = (if req_Limit req \<le> 0 then req\<lparr>req_Limit := 10\<rparr> else req)
           in case Search now (vectorStore e)
                     \<lparr>p_Vector = queryEmbedding, p_Limit = req_Limit req',
                      p_PermissionFilter = req_Permissions req'\<rparr> ks of
                Inl err \<Rightarrow> (req', Inl err)
              | Inr results \<Rightarrow> (req', Inr (map to_engine_result results))))"

definition Cleanup :: "Engine \<Rightarrow> Engine" where
  "Cleanup e = e\<lparr>vectorStore := fst (Close (vectorStore e))\<rparr>"

text \<open>Example data: the document of Scenario A and a request without a limit.\<close>

definition doc1 :: ProcessorResult where
  "doc1 = \<lparr>doc_DocumentID = ''doc1'', doc_Title = ''Doc 1'',
            doc_Content = [''hello world'', ''foo bar''], doc_Metadata = Map.empty\<rparr>"

definition request0 :: SearchRequest where
  "request0 = \<lparr>req_Query = ''hello'', req_UserID = ''u1'', req_Permissions = [''u1''],
                req_Limit = 0\<rparr>"



section \<open>Ranges of the sums of squares\<close>

text \<open>
  A float32 product \<open>x * x\<close> is NaN, \<open>+Inf\<close>, zero, or at least the smallest positive float32
  \<open>2 powr (- 149)\<close>; the float64 sums of such products stay in that class (\<open>sized\<close>). A value
  of the class without zero (\<open>big\<close>) is never rounded to zero by the conversion to float32.
\<close>

definition sized :: "float \<Rightarrow> bool" where
  "sized t = (case t of Num v \<Rightarrow> v = 0 \<or> 2 powr (- 149) \<le> v | PosInf \<Rightarrow> True
              | NegInf \<Rightarrow> False | NaN \<Rightarrow> True)"

definition big :: "float \<Rightarrow> bool" where
  "big t = (case t of Num v \<Rightarrow> 2 powr (- 149) \<le> v | PosInf \<Rightarrow> True
              | NegInf \<Rightarrow> False | NaN \<Rightarrow> True)"

section \<open>Properties of the rounding\<close>

lemma round_half_even_int [simp]: "round_half_even (of_int n) = n"
  by (simp add: round_half_even_def)

lemma round_half_even_ge_floor: "\<lfloor>y\<rfloor> \<le> round_half_even y"
  by (simp add: round_half_even_def Let_def)

lemma powr_int_diff: "2 powr of_int (a - b) = 2 powr of_int a / (2 powr of_int b :: real)"
  by (simp add: powr_diff)

lemma powr_nonneg_int: "0 \<le> d \<Longrightarrow> (2::real) powr of_int d = of_int (2 ^ nat d)"
proof -
  assume "0 \<le> d"
  then have "(2::real) powr of_int d = 2 powr real (nat d)" by simp
  also have "\<dots> = 2 ^ nat d" by (simp add: powr_realpow)
  finally show ?thesis by simp
qed

lemma round_mag_lower:
  assumes "2 powr of_int j \<le> a" and "qmin \<le> j" and "1 \<le> p"
  shows "2 powr of_int j \<le> round_mag p qmin a"
proof -
  have "0 < (2::real) powr of_int j" by simp
  with assms(1) have apos: "0 < a" by linarith
  define k where "k = \<lfloor>log 2 a\<rfloor>"
  define q where "q = max qmin (k - (p - 1))"
  have "of_int j \<le> log 2 a"
    using assms(1) apos by (simp add: le_log_iff)
  then have jk: "j \<le> k" unfolding k_def by (simp add: le_floor_iff)
  have "of_int k \<le> log 2 a" unfolding k_def by simp
  then have ka: "2 powr of_int k \<le> a" using apos by (simp add: le_log_iff)
  have qk: "q \<le> k" unfolding q_def using jk assms(2,3) by simp
  have e: "2 powr of_int (k - q) = (of_int (2 ^ nat (k - q)) :: real)"
    using qk by (intro powr_nonneg_int) simp
  have "2 powr of_int (k - q) \<le> a / 2 powr of_int q"
    unfolding powr_int_diff using ka by (simp add: divide_right_mono)
  then have "(of_int (2 ^ nat (k - q)) :: real) \<le> a / 2 powr of_int q"
    unfolding e .
  then have "2 ^ nat (k - q) \<le> \<lfloor>a / 2 powr of_int q\<rfloor>"
    by (simp only: le_floor_iff)
  with round_half_even_ge_floor[of "a / 2 powr of_int q"]
  have "(2::int) ^ nat (k - q) \<le> round_half_even (a / 2 powr of_int q)" by linarith
  then have "(of_int (2 ^ nat (k - q)) :: real) \<le> of_int (round_half_even (a / 2 powr of_int q))"
    by (simp only: of_int_le_iff)
  then have "(2::real) powr of_int (k - q) \<le> of_int (round_half_even (a / 2 powr of_int q))"
    unfolding e .
  note le = this
  have "(2::real) powr of_int k = 2 powr of_int (k - q) * 2 powr of_int q"
    unfolding powr_int_diff by simp
  also have "\<dots> \<le> of_int (round_half_even (a / 2 powr of_int q)) * 2 powr of_int q"
    using le by (intro mult_right_mono) simp_all
  also have "\<dots> = round_mag p qmin a"
    unfolding round_mag_def Let_def q_def k_def ..
  finally have "2 powr of_int k \<le> round_mag p qmin a" .
  moreover have "2 powr of_int j \<le> (2::real) powr of_int k" using jk by simp
  ultimately show ?thesis by linarith
qed

lemma round_half_even_nonneg: "0 \<le> y \<Longrightarrow> 0 \<le> round_half_even y"
proof -
  assume "0 \<le> y"
  then have "0 \<le> \<lfloor>y\<rfloor>" by simp
  with round_half_even_ge_floor[of y] show ?thesis by linarith
qed

lemma round_mag_form:
  "\<exists>n q. round_mag p qmin a = of_int n * 2 powr of_int q \<and> qmin \<le> q
         \<and> n = round_half_even (a / 2 powr of_int q)"
  unfolding round_mag_def Let_def by (intro exI conjI) (rule refl, simp, rule refl)

lemma round_mag_nonneg: "0 \<le> a \<Longrightarrow> 0 \<le> round_mag p qmin a"
proof -
  assume a: "0 \<le> a"
  obtain n q where f: "round_mag p qmin a = of_int n * 2 powr of_int q"
    and n: "n = round_half_even (a / 2 powr of_int q)"
    using round_mag_form by blast
  from a have "0 \<le> a / 2 powr of_int q" by simp
  then have "0 \<le> n" unfolding n by (rule round_half_even_nonneg)
  then show ?thesis unfolding f by simp
qed

lemma round_mag_zero_or_big:
  assumes "0 \<le> a"
  shows "round_mag p qmin a = 0 \<or> 2 powr of_int qmin \<le> round_mag p qmin a"
proof -
  obtain n q where f: "round_mag p qmin a = of_int n * 2 powr of_int q"
    and q: "qmin \<le> q" and n: "n = round_half_even (a / 2 powr of_int q)"
    using round_mag_form by blast
  from assms have "0 \<le> a / 2 powr of_int q" by simp
  then have n0: "0 \<le> n" unfolding n by (rule round_half_even_nonneg)
  show ?thesis
  proof (cases "n = 0")
    case True
    then show ?thesis unfolding f by simp
  next
    case False
    with n0 have "1 \<le> n" by simp
    then have "(1::real) \<le> of_int n" by simp
    then have le: "1 * 2 powr of_int q \<le> of_int n * (2::real) powr of_int q"
      by (intro mult_right_mono) simp_all
    have "(2::real) powr of_int qmin \<le> 2 powr of_int q" using q by simp
    also have "\<dots> = 1 * 2 powr of_int q" by simp
    also note le
    finally show ?thesis unfolding f by simp
  qed
qed

lemma round_mag_exact:
  assumes "0 < m" and "m < 2 ^ nat p" and "qmin \<le> q" and "1 \<le> p"
  shows "round_mag p qmin (of_int m * 2 powr of_int q) = of_int m * 2 powr of_int q"
proof -
  define a :: real where "a = of_int m * 2 powr of_int q"
  have apos: "0 < a" unfolding a_def using assms(1) by simp
  define q' where "q' = max qmin (\<lfloor>log 2 a\<rfloor> - (p - 1))"
  have "real_of_int m < 2 ^ nat p" using assms(2) by (metis of_int_less_iff of_int_numeral of_int_power)
  also have "\<dots> = 2 powr of_int p" using assms(4) powr_nonneg_int[of p] by simp
  finally have "a < 2 powr of_int p * 2 powr of_int q"
    unfolding a_def by (intro mult_strict_right_mono) simp_all
  also have "\<dots> = 2 powr of_int (p + q)" by (simp add: powr_add)
  finally have "log 2 a < of_int (p + q)" using apos by (simp add: log_less_iff)
  then have "\<lfloor>log 2 a\<rfloor> < p + q" by (simp only: floor_less_iff)
  with assms(3) have q'q: "q' \<le> q" unfolding q'_def by simp
  have e: "2 powr of_int (q - q') = (of_int (2 ^ nat (q - q')) :: real)"
    using q'q by (intro powr_nonneg_int) simp
  have "a / 2 powr of_int q' = of_int m * 2 powr of_int (q - q')"
    unfolding a_def powr_int_diff by simp
  also have "\<dots> = of_int (m * 2 ^ nat (q - q'))" unfolding e by simp
  finally have "round_half_even (a / 2 powr of_int q') = m * 2 ^ nat (q - q')"
    by (simp only: round_half_even_int)
  then have "round_mag p qmin a = of_int (m * 2 ^ nat (q - q')) * 2 powr of_int q'"
    unfolding round_mag_def Let_def q'_def by simp
  also have "\<dots> = of_int m * (2 powr of_int (q - q') * 2 powr of_int q')"
    unfolding e by simp
  also have "2 powr of_int (q - q') * 2 powr of_int q' = (2::real) powr of_int q"
    unfolding powr_int_diff by simp
  finally show ?thesis unfolding a_def .
qed

lemma round_to_exact:
  assumes "x = of_int m * 2 powr of_int q" and "\<bar>m\<bar> < 2 ^ nat p"
    and "qmin \<le> q" and "q \<le> qmax" and "1 \<le> p"
  shows "round_to p qmin qmax x = Num x"
proof (cases "m = 0")
  case True
  with assms(1) show ?thesis by (simp add: round_to_def)
next
  case False
  define m' where "m' = \<bar>m\<bar>"
  have m': "0 < m'" "m' < 2 ^ nat p" using False assms(2) by (simp_all add: m'_def)
  have absx: "\<bar>x\<bar> = of_int m' * 2 powr of_int q"
    unfolding assms(1) m'_def by (simp add: abs_mult)
  have v: "round_mag p qmin \<bar>x\<bar> = \<bar>x\<bar>"
    unfolding absx using m' assms(3,5) by (rule round_mag_exact)
  have "real_of_int m' < 2 ^ nat p" using m'(2) by (metis of_int_less_iff of_int_numeral of_int_power)
  also have "\<dots> = 2 powr of_int p" using assms(5) powr_nonneg_int[of p] by simp
  finally have "\<bar>x\<bar> < 2 powr of_int p * 2 powr of_int q"
    unfolding absx by (intro mult_strict_right_mono) simp_all
  also have "\<dots> \<le> 2 powr of_int p * 2 powr of_int qmax"
    using assms(4) by (intro mult_left_mono) simp_all
  also have "\<dots> = 2 powr of_int (qmax + p)" by (simp add: powr_add)
  finally have small: "\<not> 2 powr of_int (qmax + p) \<le> round_mag p qmin \<bar>x\<bar>"
    unfolding v by simp
  have "x \<noteq> 0" using False assms(1) by simp
  with small v show ?thesis
    by (simp add: round_to_def Let_def)
qed

lemma round_to_overflow:
  assumes "2 powr of_int (qmax + p) \<le> \<bar>x\<bar>" and "qmin \<le> qmax + p" and "1 \<le> p"
  shows "round_to p qmin qmax x = (if x < 0 then NegInf else PosInf)"
proof -
  from assms have "2 powr of_int (qmax + p) \<le> round_mag p qmin \<bar>x\<bar>"
    by (intro round_mag_lower)
  moreover have "0 < (2::real) powr of_int (qmax + p)" by simp
  with assms(1) have "x \<noteq> 0" by auto
  ultimately show ?thesis by (simp add: round_to_def Let_def)
qed

lemma round_to_lower:
  assumes "2 powr of_int j \<le> x" and "qmin \<le> j" and "1 \<le> p"
  shows "round_to p qmin qmax x = PosInf \<or> (\<exists>v. round_to p qmin qmax x = Num v \<and> 2 powr of_int j \<le> v)"
proof -
  have "0 < (2::real) powr of_int j" by simp
  with assms(1) have x: "0 < x" by linarith
  then have "\<bar>x\<bar> = x" by simp
  with round_mag_lower[OF assms] have "2 powr of_int j \<le> round_mag p qmin \<bar>x\<bar>" by simp
  with x show ?thesis by (simp add: round_to_def Let_def)
qed

lemma round_to_nonneg:
  assumes "0 \<le> x"
  shows "round_to p qmin qmax x = PosInf \<or> round_to p qmin qmax x = Num 0
         \<or> (\<exists>v. round_to p qmin qmax x = Num v \<and> 2 powr of_int qmin \<le> v)"
proof (cases "x = 0")
  case True
  then show ?thesis by (simp add: round_to_def)
next
  case False
  with assms have x: "0 < x" by simp
  then have "\<bar>x\<bar> = x" by simp
  with round_mag_zero_or_big[of "\<bar>x\<bar>" p qmin] x show ?thesis
    by (auto simp: round_to_def Let_def)
qed

lemma r32_exact:
  "\<bar>m\<bar> < 16777216 \<Longrightarrow> - 149 \<le> q \<Longrightarrow> q \<le> 104 \<Longrightarrow>
   r32 (of_int m * 2 powr of_int q) = Num (of_int m * 2 powr of_int q)"
  unfolding r32_def by (rule round_to_exact[of _ m q]) simp_all

lemma r64_exact:
  "\<bar>m\<bar> < 9007199254740992 \<Longrightarrow> - 1074 \<le> q \<Longrightarrow> q \<le> 971 \<Longrightarrow>
   r64 (of_int m * 2 powr of_int q) = Num (of_int m * 2 powr of_int q)"
  unfolding r64_def by (rule round_to_exact[of _ m q]) simp_all

lemma r32_zero [simp]: "r32 0 = Num 0"
  by (simp add: r32_def round_to_def)

lemma r64_zero [simp]: "r64 0 = Num 0"
  by (simp add: r64_def round_to_def)

lemma r32_overflow: "2 ^ 128 \<le> x \<Longrightarrow> r32 x = PosInf"
proof -
  assume "2 ^ 128 \<le> x"
  then have "2 powr of_int (104 + 24) \<le> \<bar>x\<bar>" "\<not> x < 0" by simp_all
  then show ?thesis
    unfolding r32_def using round_to_overflow[of 104 24 x "- 149"] by simp
qed

lemma powr_neg_nat: "(2::real) powr of_int (- int n) = 1 / 2 ^ n"
  by (simp add: powr_minus powr_realpow divide_inverse)

lemma r32_frac:
  "\<bar>m\<bar> < 16777216 \<Longrightarrow> n \<le> 149 \<Longrightarrow> r32 (of_int m / 2 ^ n) = Num (of_int m / 2 ^ n)"
  using r32_exact[of m "- int n"] unfolding powr_neg_nat by simp

lemma r64_frac:
  "\<bar>m\<bar> < 9007199254740992 \<Longrightarrow> n \<le> 1074 \<Longrightarrow> r64 (of_int m / 2 ^ n) = Num (of_int m / 2 ^ n)"
  using r64_exact[of m "- int n"] unfolding powr_neg_nat by simp

text \<open>What is below half the smallest positive value of the format is rounded to zero.\<close>

lemma round_mag_underflow:
  assumes "0 < a" and "a < 2 powr of_int (qmin - 1)" and "1 \<le> p"
  shows "round_mag p qmin a = 0"
proof -
  have "log 2 a < of_int (qmin - 1)"
    using assms(1,2) by (simp add: log_less_iff)
  then have "\<lfloor>log 2 a\<rfloor> < qmin - 1" by (simp only: floor_less_iff)
  with assms(3) have q: "max qmin (\<lfloor>log 2 a\<rfloor> - (p - 1)) = qmin" by simp
  have "a / 2 powr of_int qmin < 2 powr of_int (qmin - 1) / 2 powr of_int qmin"
    using assms(2) by (intro divide_strict_right_mono) simp_all
  also have "\<dots> = 2 powr of_int (qmin - 1 - qmin)"
    by (rule powr_int_diff[symmetric])
  also have "\<dots> = 2 powr of_int (- int 1)" by simp
  also have "\<dots> = 1 / 2" unfolding powr_neg_nat by simp
  finally have lt: "a / 2 powr of_int qmin < 1 / 2" .
  have ge: "0 \<le> a / 2 powr of_int qmin" using assms(1) by simp
  define y where "y = a / 2 powr of_int qmin"
  from lt ge have y: "0 \<le> y" "y < 1 / 2" unfolding y_def by simp_all
  then have "of_int 0 \<le> y" "y < of_int 0 + 1" by simp_all
  then have fl: "\<lfloor>y\<rfloor> = 0" by (simp only: floor_eq_iff)
  have "round_half_even y = 0"
    using y by (simp add: round_half_even_def Let_def fl)
  then have "round_half_even (a / 2 powr of_int qmin) = 0"
    unfolding y_def .
  then show ?thesis
    unfolding round_mag_def Let_def q by simp
qed

lemma r32_underflow: "0 \<le> x \<Longrightarrow> x < 1 / 2 ^ 150 \<Longrightarrow> r32 x = Num 0"
proof (cases "x = 0")
  case True
  then show ?thesis by simp
next
  case False
  assume "0 \<le> x" and lt: "x < 1 / 2 ^ 150"
  with False have x: "0 < x" by simp
  have "(2::real) powr of_int (- 149 - 1) = 1 / 2 ^ 150"
    using powr_neg_nat[of 150] by simp
  with lt have "x < 2 powr of_int (- 149 - 1)" by simp
  with x have "round_mag 24 (- 149) x = 0"
    by (intro round_mag_underflow) simp_all
  with x show ?thesis
    by (simp add: r32_def round_to_def Let_def)
qed

subsection \<open>The comparisons\<close>

lemma flt_imp_fle: "flt x y \<Longrightarrow> fle x y"
  by (cases x; cases y) simp_all

lemma not_flt_imp_fle: "x \<noteq> NaN \<Longrightarrow> y \<noteq> NaN \<Longrightarrow> \<not> flt x y \<Longrightarrow> fle y x"
  by (cases x; cases y) simp_all

lemma fle_trans: "fle x y \<Longrightarrow> fle y z \<Longrightarrow> fle x z"
  by (cases x; cases y; cases z) simp_all

lemma fle_refl: "x \<noteq> NaN \<Longrightarrow> fle x x"
  by (cases x) simp_all

section \<open>Properties of the store\<close>

subsection \<open>A closed store\<close>

lemma closed_step:
  "closed_flag s \<Longrightarrow> closed_flag (fst (step s c)) \<and> snd (step s c) = closed_reply c"
  by (cases c rule: closed_reply.cases)
     (simp_all add: Store_def Get_def Delete_def Search_def Close_def cleanupExpiredItems_def)

lemma closed_run:
  "closed_flag s \<Longrightarrow> closed_flag (fst (run s cs)) \<and> snd (run s cs) = map closed_reply cs"
proof (induction cs arbitrary: s)
  case Nil
  then show ?case by simp
next
  case (Cons c cs)
  obtain s' r where st: "step s c = (s', r)" by (cases "step s c")
  with closed_step[OF Cons.prems, of c] have cl: "closed_flag s'" and r: "r = closed_reply c"
    by simp_all
  from Cons.IH[OF cl] st r show ?case
    by (cases "run s' cs") simp
qed

text \<open>
  C5. After \<open>Close()\<close>, every later \<open>Store\<close>, \<open>Get\<close>, \<open>Delete\<close> and \<open>Search\<close> fails with
  the error "store is closed", and a second \<open>Close()\<close> changes nothing and returns no
  error. The last conjunct covers every later call, whatever was called in between: the
  replies to any sequence of calls on the closed store are the closed store's replies.
\<close>

theorem close_then_all_fail:
  "snd (Close s) = None
   \<and> Store (fst (Close s)) it = (fst (Close s), Some StoreClosed)
   \<and> Get now (fst (Close s)) k = Inl StoreClosed
   \<and> Delete (fst (Close s)) k = (fst (Close s), Some StoreClosed)
   \<and> Search now (fst (Close s)) params ks = Inl StoreClosed
   \<and> Close (fst (Close s)) = (fst (Close s), None)
   \<and> snd (run (fst (Close s)) cs) = map closed_reply cs"
proof -
  have cl: "closed_flag (fst (Close s))"
    by (simp add: Close_def)
  have "snd (Close s) = None"
    by (simp add: Close_def)
  moreover from cl have "Store (fst (Close s)) it = (fst (Close s), Some StoreClosed)"
    by (simp add: Store_def)
  moreover from cl have "Get now (fst (Close s)) k = Inl StoreClosed"
    by (simp add: Get_def)
  moreover from cl have "Delete (fst (Close s)) k = (fst (Close s), Some StoreClosed)"
    by (simp add: Delete_def)
  moreover from cl have "Search now (fst (Close s)) params ks = Inl StoreClosed"
    by (simp add: Search_def)
  moreover from cl have "Close (fst (Close s)) = (fst (Close s), None)"
    by (simp add: Close_def)
  moreover from closed_run[OF cl] have "snd (run (fst (Close s)) cs) = map closed_reply cs"
    by simp
  ultimately show ?thesis by blast
qed

subsection \<open>Store and Get\<close>

lemma undisturbed_step:
  "\<not> closed_flag s \<Longrightarrow> items s (ID it) = Some it \<Longrightarrow> \<not> disturbs it c \<Longrightarrow>
   \<not> closed_flag (fst (step s c)) \<and> items (fst (step s c)) (ID it) = Some it"
  by (cases c rule: closed_reply.cases)
     (simp_all add: Store_def Delete_def cleanupExpiredItems_def)

lemma undisturbed_run:
  "\<not> closed_flag s \<Longrightarrow> items s (ID it) = Some it \<Longrightarrow> \<forall>c\<in>set cs. \<not> disturbs it c \<Longrightarrow>
   \<not> closed_flag (fst (run s cs)) \<and> items (fst (run s cs)) (ID it) = Some it"
proof (induction cs arbitrary: s)
  case Nil
  then show ?case by simp
next
  case (Cons c cs)
  obtain s' r where st: "step s c = (s', r)" by (cases "step s c")
  from Cons.prems have nd: "\<not> disturbs it c" by simp
  from undisturbed_step[OF Cons.prems(1,2) nd] st
  have s': "\<not> closed_flag s'" "items s' (ID it) = Some it" by simp_all
  from Cons.prems have "\<forall>c\<in>set cs. \<not> disturbs it c" by simp
  from Cons.IH[OF s' this] st show ?case
    by (cases "run s' cs") simp
qed

text \<open>
  C6. On an open store: \<open>Store(item)\<close> succeeds; after it, and after any further calls that
  neither delete nor overwrite the id, nor close the store, nor sweep the item once it has
  expired, \<open>Get(id)\<close> returns the stored item as long as its expiry has not passed.
  \<open>Get(id)\<close> fails with "not found" when the id is absent, and fails (with "has expired")
  when the item is present but its expiry has passed, whether or not a sweep has run.
\<close>

theorem store_get_roundtrip:
  assumes "\<not> closed_flag s"
  shows "snd (Store s it) = None
    \<and> ((\<forall>c\<in>set cs. \<not> disturbs it c) \<and> \<not> expired now it \<longrightarrow>
         Get now (fst (run (fst (Store s it)) cs)) (ID it) = Inr it)
    \<and> (expired now it \<longrightarrow> Get now (fst (Store s it)) (ID it) = Inl (ItemExpired (ID it)))
    \<and> (items s k = None \<longrightarrow> Get now s k = Inl (ItemNotFound k))
    \<and> (\<forall>it'. items s k = Some it' \<and> expired now it' \<longrightarrow> Get now s k = Inl (ItemExpired k))"
proof -
  let ?s = "fst (Store s it)"
  from assms have open': "\<not> closed_flag ?s" and there: "items ?s (ID it) = Some it"
    by (simp_all add: Store_def)
  have "snd (Store s it) = None"
    using assms by (simp add: Store_def)
  moreover have "Get now (fst (run ?s cs)) (ID it) = Inr it"
    if "\<forall>c\<in>set cs. \<not> disturbs it c" and "\<not> expired now it"
    using undisturbed_run[OF open' there that(1)] that(2) by (simp add: Get_def)
  moreover have "Get now ?s (ID it) = Inl (ItemExpired (ID it))" if "expired now it"
    using open' there that by (simp add: Get_def)
  moreover have "Get now s k = Inl (ItemNotFound k)" if "items s k = None"
    using assms that by (simp add: Get_def)
  moreover have "Get now s k = Inl (ItemExpired k)" if "items s k = Some it'" "expired now it'" for it'
    using assms that by (simp add: Get_def)
  ultimately show ?thesis by blast
qed

theorem store_get_roundtrip_witness:
  "\<not> closed_flag (NewQdrantStore example_config)
   \<and> Get 5 (fst (run (fst (Store (NewQdrantStore example_config) item_X))
                [(6, CallGet ''X''), (7, CallSweep), (8, CallDelete ''Y''), (9, CallStore item_short)]))
         ''X'' = Inr item_X
   \<and> Get 11 (fst (Store (NewQdrantStore example_config) item_X)) ''X'' = Inl (ItemExpired ''X'')
   \<and> Get 5 (NewQdrantStore example_config) ''X'' = Inl (ItemNotFound ''X'')"
  using store_get_roundtrip [of "NewQdrantStore example_config" item_X
      "[(6, CallGet ''X''), (7, CallSweep), (8, CallDelete ''Y''), (9, CallStore item_short)]" 5 "''X''"]
    store_get_roundtrip [of "NewQdrantStore example_config" item_X "[]" 11 "''X''"]
  by (simp add: NewQdrantStore_def item_X_def item_short_def expired_def IsZero_def After_def)

subsection \<open>The dimension of stored vectors\<close>

lemma config_step: "config (fst (step s c)) = config s"
  by (cases c rule: closed_reply.cases)
     (simp_all add: Store_def Delete_def Close_def cleanupExpiredItems_def)

lemma ran_sweep:
  "ran (\<lambda>k. case m k of None \<Rightarrow> None | Some it \<Rightarrow> if P it then None else Some it) \<subseteq> ran m"
  by (auto simp: ran_def split: option.splits if_splits)

lemma dimension_step:
  assumes "dimension_ok s" and "fitting (config s) c"
  shows "dimension_ok (fst (step s c))"
proof (cases c rule: closed_reply.cases)
  case (1 now it)
  have "ran ((items s)(ID it \<mapsto> it)) \<subseteq> insert it (ran (items s))"
    by (auto simp: ran_def)
  with assms 1 show ?thesis
    by (auto simp: dimension_ok_def Store_def)
next
  case (3 now k)
  have "ran ((items s)(k := None)) \<subseteq> ran (items s)"
    by (auto simp: ran_def split: if_splits)
  with assms 3 show ?thesis
    by (auto simp: dimension_ok_def Delete_def)
next
  case (6 now)
  with assms ran_sweep[of "expired now" "items s"] show ?thesis
    by (auto simp: dimension_ok_def cleanupExpiredItems_def)
qed (use assms in \<open>auto simp: dimension_ok_def Close_def\<close>)

text \<open>
  C4, as the code has it. \<open>Store\<close> does not look at the vector. The invariant (every stored
  vector has length \<open>Config.VectorSize\<close>) is preserved by every sequence of calls in which
  each item handed to \<open>Store\<close> has a vector of the configured length; \<open>Get\<close>, \<open>Delete\<close>,
  \<open>Search\<close>, \<open>Close\<close> and the sweep preserve it unconditionally.
\<close>

theorem dimension_preserved:
  "dimension_ok s \<Longrightarrow> \<forall>c\<in>set cs. fitting (config s) c \<Longrightarrow> dimension_ok (fst (run s cs))"
proof (induction cs arbitrary: s)
  case Nil
  then show ?case by simp
next
  case (Cons c cs)
  obtain s' r where st: "step s c = (s', r)" by (cases "step s c")
  from Cons.prems have "fitting (config s) c" by simp
  from dimension_step[OF Cons.prems(1) this] st have ok: "dimension_ok s'" by simp
  from config_step[of s c] st have "config s' = config s" by simp
  with Cons.prems have "\<forall>c\<in>set cs. fitting (config s') c" by simp
  from Cons.IH[OF ok this] st show ?case
    by (cases "run s' cs") simp
qed

theorem dimension_preserved_witness:
  "dimension_ok (NewQdrantStore example_config)
   \<and> fitting example_config (1, CallStore item_X)
   \<and> dimension_ok (fst (run (NewQdrantStore example_config)
         [(1, CallStore item_X), (2, CallSweep), (3, CallDelete ''X'')]))"
  using dimension_preserved [of "NewQdrantStore example_config"
      "[(1, CallStore item_X), (2, CallSweep), (3, CallDelete ''X'')]"]
  by (simp add: dimension_ok_def NewQdrantStore_def item_X_def example_config_def)

text \<open>
  C4 as the specification states it does not hold: a store configured for dimension 2 accepts an item whose vector
  has length 1, and holds it afterwards.
\<close>

theorem dimension_counterexample:
  "dimension_ok (NewQdrantStore example_config)
   \<and> snd (Store (NewQdrantStore example_config) item_short) = None
   \<and> items (fst (Store (NewQdrantStore example_config) item_short)) ''S'' = Some item_short
   \<and> \<not> dimension_ok (fst (Store (NewQdrantStore example_config) item_short))"
  by (simp add: dimension_ok_def NewQdrantStore_def Store_def item_short_def example_config_def)

section \<open>Properties of the similarity\<close>

lemma tiny_pos: "0 < (2::real) powr (- 149)"
  by simp

lemma sized_simps [simp]:
  "sized (Num u) \<longleftrightarrow> u = 0 \<or> 2 powr (- 149) \<le> u"
  "sized NaN" "sized PosInf" "\<not> sized NegInf"
  by (auto simp: sized_def)

lemma big_simps [simp]:
  "big (Num u) \<longleftrightarrow> 2 powr (- 149) \<le> u"
  "big NaN" "big PosInf" "\<not> big NegInf"
  by (auto simp: big_def)

lemma r32_nonneg_sized: "0 \<le> x \<Longrightarrow> sized (r32 x)"
  using round_to_nonneg[of x 24 "- 149" 104] by (auto simp: r32_def)

lemma fmul_square_sized: "sized (fmul r32 x x)"
  by (cases x) (simp_all add: r32_nonneg_sized signed_inf_def)

lemma r64_sum_sized:
  assumes "u = 0 \<or> 2 powr (- 149) \<le> u" and "v = 0 \<or> 2 powr (- 149) \<le> v"
  shows "sized (r64 (u + v))"
proof (cases "u = 0 \<and> v = 0")
  case True
  then show ?thesis by simp
next
  case False
  with assms tiny_pos have "2 powr (- 149) \<le> u + v" by linarith
  then have "2 powr of_int (- 149) \<le> u + v" by simp
  from round_to_lower[OF this, of "- 1074" 53 971] show ?thesis
    by (auto simp: r64_def)
qed

lemma fadd_sized: "sized s \<Longrightarrow> sized t \<Longrightarrow> sized (fadd r64 s t)"
  by (cases s; cases t) (simp_all add: r64_sum_sized)

lemma cosine_loop_sized:
  "sized nA \<Longrightarrow> sized nB \<Longrightarrow> cosine_loop a b i (d, nA, nB) = (d', nA', nB') \<Longrightarrow>
   sized nA' \<and> sized nB'"
proof (induction a b i "(d, nA, nB)" arbitrary: d nA nB rule: cosine_loop.induct)
  case (1 a b i d nA nB)
  show ?case
  proof (cases "i < length a")
    case True
    have "sized (fadd r64 nA (to_float64 (fmul r32 (a ! i) (a ! i))))"
      "sized (fadd r64 nB (to_float64 (fmul r32 (b ! i) (b ! i))))"
      using "1.prems"(1,2) by (simp_all add: to_float64_def fadd_sized fmul_square_sized)
    moreover from "1.prems"(3) True
    have "cosine_loop a b (i + 1)
             (fadd r64 d (to_float64 (fmul r32 (a ! i) (b ! i))),
              fadd r64 nA (to_float64 (fmul r32 (a ! i) (a ! i))),
              fadd r64 nB (to_float64 (fmul r32 (b ! i) (b ! i)))) = (d', nA', nB')"
      by (subst (asm) cosine_loop.simps) simp
    ultimately show ?thesis
      using "1.hyps"[OF True] by blast
  next
    case False
    with "1.prems" show ?thesis
      by (subst (asm) cosine_loop.simps) simp
  qed
qed

lemma r32_big: "2 powr (- 149) \<le> v \<Longrightarrow> big (r32 v)"
proof -
  assume "2 powr (- 149) \<le> v"
  then have "2 powr of_int (- 149) \<le> v" by simp
  from round_to_lower[OF this, of "- 149" 24 104] show ?thesis
    by (auto simp: r32_def)
qed

lemma sqrt_poc_big: "sized t \<Longrightarrow> \<not> feq t (Num 0) \<Longrightarrow> big (sqrt_poc t)"
  by (cases t) (auto simp: sqrt_poc_def to_float64_def to_float32_def feq_def r32_big)

lemma r64_product_nonzero:
  assumes "2 powr (- 149) \<le> u" and "2 powr (- 149) \<le> v"
  shows "r64 (u * v) \<noteq> Num 0"
proof -
  from assms tiny_pos have "0 \<le> u" "0 \<le> v" by linarith+
  then have "(2::real) powr (- 149) * 2 powr (- 149) \<le> u * v"
    using assms by (intro mult_mono) simp_all
  then have "2 powr of_int (- 298) \<le> u * v"
    by (simp add: powr_add[symmetric])
  from round_to_lower[OF this, of "- 1074" 53 971]
  have "r64 (u * v) = PosInf \<or> (\<exists>w. r64 (u * v) = Num w \<and> 2 powr of_int (- 298) \<le> w)"
    by (simp add: r64_def)
  moreover have "0 < (2::real) powr of_int (- 298)" by simp
  ultimately show ?thesis by auto
qed

lemma fmul_big_nonzero: "big x \<Longrightarrow> big y \<Longrightarrow> fmul r64 x y \<noteq> Num 0"
proof (cases x; cases y)
  fix u v assume "big x" "big y" "x = Num u" "y = Num v"
  then show ?thesis by (simp add: r64_product_nonzero)
next
  fix u assume "big x" "x = Num u" "y = PosInf"
  then have "2 powr (- 149) \<le> u" by simp
  with tiny_pos have "u \<noteq> 0" by linarith
  with \<open>x = Num u\<close> \<open>y = PosInf\<close> show ?thesis by (simp add: signed_inf_def)
next
  fix v assume "big y" "y = Num v" "x = PosInf"
  then have "2 powr (- 149) \<le> v" by simp
  with tiny_pos have "v \<noteq> 0" by linarith
  with \<open>y = Num v\<close> \<open>x = PosInf\<close> show ?thesis by (simp add: signed_inf_def)
qed (simp_all add: signed_inf_def)

lemma cosine_loop_zero_a:
  "\<forall>x\<in>set a. x = Num 0 \<Longrightarrow> cosine_loop a b i (d, Num 0, nB) = (d', nA', nB') \<Longrightarrow>
   nA' = Num 0"
proof (induction a b i "(d, Num 0, nB)" arbitrary: d nB rule: cosine_loop.induct)
  case (1 a b i d nB)
  show ?case
  proof (cases "i < length a")
    case True
    with "1.prems"(1) have ai: "a ! i = Num 0" by simp
    from "1.prems"(2) True ai
    have "cosine_loop a b (i + 1)
             (fadd r64 d (to_float64 (fmul r32 (a ! i) (b ! i))), Num 0,
              fadd r64 nB (to_float64 (fmul r32 (b ! i) (b ! i)))) = (d', nA', nB')"
      by (subst (asm) cosine_loop.simps) (simp add: to_float64_def)
    with "1.hyps"[OF True _ "1.prems"(1)] ai show ?thesis
      by (simp add: to_float64_def)
  next
    case False
    with "1.prems" show ?thesis
      by (subst (asm) cosine_loop.simps) simp
  qed
qed

lemma cosine_loop_zero_b:
  "length a = length b \<Longrightarrow> \<forall>x\<in>set b. x = Num 0 \<Longrightarrow>
   cosine_loop a b i (d, nA, Num 0) = (d', nA', nB') \<Longrightarrow> nB' = Num 0"
proof (induction a b i "(d, nA, Num 0)" arbitrary: d nA rule: cosine_loop.induct)
  case (1 a b i d nA)
  show ?case
  proof (cases "i < length a")
    case True
    with "1.prems"(1,2) have bi: "b ! i = Num 0" by simp
    from "1.prems"(3) True bi
    have "cosine_loop a b (i + 1)
             (fadd r64 d (to_float64 (fmul r32 (a ! i) (b ! i))),
              fadd r64 nA (to_float64 (fmul r32 (a ! i) (a ! i))), Num 0) = (d', nA', nB')"
      by (subst (asm) cosine_loop.simps) (simp add: to_float64_def)
    with "1.hyps"[OF True _ "1.prems"(1,2)] bi show ?thesis
      by (simp add: to_float64_def)
  next
    case False
    with "1.prems" show ?thesis
      by (subst (asm) cosine_loop.simps) simp
  qed
qed

lemma cosine_divisor_nonzero:
  assumes "cosine_loop a b 0 (Num 0, Num 0, Num 0) = (d, nA, nB)"
    and "\<not> (feq nA (Num 0) \<or> feq nB (Num 0))"
  shows "cosine_divisor nA nB \<noteq> Num 0"
proof -
  from cosine_loop_sized[OF _ _ assms(1)] have "sized nA" "sized nB" by simp_all
  with assms(2) have "big (sqrt_poc nA)" "big (sqrt_poc nB)"
    by (simp_all add: sqrt_poc_big)
  then show ?thesis
    unfolding cosine_divisor_def by (rule fmul_big_nonzero)
qed

text \<open>
  C9. \<open>cosineSimilarity(a, b)\<close> returns 0 when \<open>a\<close> and \<open>b\<close> differ in length, and 0 when
  either vector has zero norm (all its entries are zero). For equal lengths the result is
  decided by the computed sums of squares: 0 when one of them compares equal to 0, and
  otherwise the float64 quotient of the dot product by \<open>sqrt(normA) * sqrt(normB)\<close>, whose
  divisor is then never 0 (it may be \<open>+Inf\<close> or NaN after an overflow, which is not a division
  by zero). The function is total.
\<close>

theorem cosineSimilarity_zero_cases:
  "(length a \<noteq> length b \<longrightarrow> cosineSimilarity a b = Num 0)
   \<and> ((\<forall>x\<in>set a. x = Num 0) \<or> (\<forall>x\<in>set b. x = Num 0) \<longrightarrow> cosineSimilarity a b = Num 0)
   \<and> (\<forall>dotProduct normA normB.
         length a = length b
         \<and> cosine_loop a b 0 (Num 0, Num 0, Num 0) = (dotProduct, normA, normB) \<longrightarrow>
         (if feq normA (Num 0) \<or> feq normB (Num 0) then cosineSimilarity a b = Num 0
          else cosineSimilarity a b = fdiv r64 dotProduct (cosine_divisor normA normB)
               \<and> cosine_divisor normA normB \<noteq> Num 0))"
proof -
  have "cosineSimilarity a b = Num 0" if "length a \<noteq> length b"
    using that by (simp add: cosineSimilarity_def)
  moreover have "cosineSimilarity a b = Num 0"
    if z: "(\<forall>x\<in>set a. x = Num 0) \<or> (\<forall>x\<in>set b. x = Num 0)"
  proof (cases "length a = length b")
    case True
    obtain d nA nB where l: "cosine_loop a b 0 (Num 0, Num 0, Num 0) = (d, nA, nB)"
      by (cases "cosine_loop a b 0 (Num 0, Num 0, Num 0)")
    from z cosine_loop_zero_a[OF _ l] cosine_loop_zero_b[OF True _ l]
    have "nA = Num 0 \<or> nB = Num 0" by blast
    with True l show ?thesis
      by (auto simp: cosineSimilarity_def feq_def)
  next
    case False
    then show ?thesis by (simp add: cosineSimilarity_def)
  qed
  moreover have "if feq nA (Num 0) \<or> feq nB (Num 0) then cosineSimilarity a b = Num 0
          else cosineSimilarity a b = fdiv r64 d (cosine_divisor nA nB)
               \<and> cosine_divisor nA nB \<noteq> Num 0"
    if "length a = length b" and "cosine_loop a b 0 (Num 0, Num 0, Num 0) = (d, nA, nB)"
    for d nA nB
    using that cosine_divisor_nonzero[OF that(2)]
    by (simp add: cosineSimilarity_def)
  ultimately show ?thesis by blast
qed

lemma cos_vals:
  "r32 1 = Num 1" "r32 4 = Num 4" "r32 (- 4) = Num (- 4)" "r32 (1 / 4) = Num (1 / 4)"
  "r64 1 = Num 1" "r64 2 = Num 2" "r64 4 = Num 4" "r64 (- 4) = Num (- 4)" "r64 16 = Num 16"
  "r64 (1 / 4) = Num (1 / 4)" "r64 (- (1 / 4)) = Num (- (1 / 4))" "r64 (1 / 16) = Num (1 / 16)"
  using r32_exact[of 1 0] r32_exact[of 4 0] r32_exact[of "- 4" 0] r32_frac[of 1 2]
    r64_exact[of 1 0] r64_exact[of 2 0] r64_exact[of 4 0] r64_exact[of "- 4" 0] r64_exact[of 16 0]
    r64_frac[of 1 2] r64_frac[of "- 1" 2] r64_frac[of 1 4]
  by simp_all

text \<open>The divisor is not 0 because of where the sums of squares come from; for other
  \<open>float64\<close> values it is: the conversion to \<open>float32\<close> rounds \<open>2\<^sup>-\<^sup>2\<^sup>0\<^sup>0\<close> to 0.\<close>

lemma cosine_divisor_can_vanish: "cosine_divisor (Num (1 / 2 ^ 200)) (Num 1) = Num 0"
proof -
  have "r32 (1 / 2 ^ 200) = Num 0" by (rule r32_underflow) simp_all
  then show ?thesis
    by (simp add: cosine_divisor_def sqrt_poc_def to_float64_def to_float32_def cos_vals)
qed

lemma half_vals:
  "r32 half_80 = Num half_80" "r64 half_80 = Num half_80" "r32 (half_80 * half_80) = Num 0"
proof -
  show "r32 half_80 = Num half_80"
    unfolding half_80_def using r32_frac[of 1 80] by simp
  show "r64 half_80 = Num half_80"
    unfolding half_80_def using r64_frac[of 1 80] by simp
  show "r32 (half_80 * half_80) = Num 0"
    unfolding half_80_def by (rule r32_underflow) simp_all
qed

lemma cosine_loop_half:
  "cosine_loop [Num half_80] [Num 1] 0 (Num 0, Num 0, Num 0) = (Num half_80, Num 0, Num 1)"
  by (simp add: cosine_loop.simps to_float64_def cos_vals half_vals)

text \<open>The cases of C9 at concrete vectors: unequal lengths, a zero vector on either side, a
  quotient that is reached, and a vector whose square underflows to a zero sum.\<close>

theorem cosineSimilarity_zero_cases_witness:
  "cosineSimilarity [Num 1, Num 2] [Num 3] = Num 0
   \<and> cosineSimilarity [Num 0, Num 0] [Num 1, Num 2] = Num 0
   \<and> cosineSimilarity [Num 1, Num 2] [Num 0, Num 0] = Num 0
   \<and> cosine_loop [Num 2] [Num 2] 0 (Num 0, Num 0, Num 0) = (Num 4, Num 4, Num 4)
   \<and> cosineSimilarity [Num 2] [Num 2] = fdiv r64 (Num 4) (cosine_divisor (Num 4) (Num 4))
   \<and> cosine_divisor (Num 4) (Num 4) \<noteq> Num 0
   \<and> cosine_loop [Num half_80] [Num 1] 0 (Num 0, Num 0, Num 0) = (Num half_80, Num 0, Num 1)
   \<and> cosineSimilarity [Num half_80] [Num 1] = Num 0"
proof -
  have l: "cosine_loop [Num 2] [Num 2] 0 (Num 0, Num 0, Num 0) = (Num 4, Num 4, Num 4)"
    by (simp add: cosine_loop.simps to_float64_def cos_vals)
  have nz: "\<not> (feq (Num 4) (Num 0) \<or> feq (Num 4) (Num 0))"
    by (simp add: feq_def)
  have z: "feq (Num 0) (Num 0) \<or> feq (Num 1) (Num 0)"
    by (simp add: feq_def)
  from cosineSimilarity_zero_cases [of "[Num 1, Num 2]" "[Num 3]"]
  have "cosineSimilarity [Num 1, Num 2] [Num 3] = Num 0" by simp
  moreover from cosineSimilarity_zero_cases [of "[Num 0, Num 0]" "[Num 1, Num 2]"]
  have "cosineSimilarity [Num 0, Num 0] [Num 1, Num 2] = Num 0" by simp
  moreover from cosineSimilarity_zero_cases [of "[Num 1, Num 2]" "[Num 0, Num 0]"]
  have "cosineSimilarity [Num 1, Num 2] [Num 0, Num 0] = Num 0" by simp
  moreover from cosineSimilarity_zero_cases [of "[Num 2]" "[Num 2]"] l nz
  have "cosineSimilarity [Num 2] [Num 2] = fdiv r64 (Num 4) (cosine_divisor (Num 4) (Num 4))
      \<and> cosine_divisor (Num 4) (Num 4) \<noteq> Num 0"
    by (metis length_Cons list.size(3))
  moreover from cosineSimilarity_zero_cases [of "[Num half_80]" "[Num 1]"] cosine_loop_half z
  have "cosineSimilarity [Num half_80] [Num 1] = Num 0"
    by (metis length_Cons list.size(3))
  ultimately show ?thesis using l cosine_loop_half by blast
qed

text \<open>
  C1. The specification gives \<open>cosineSimilarity(v, v) = 1\<close> and \<open>cosineSimilarity(v, - v) = - 1\<close>
  for every nonzero \<open>v\<close>, and a result in \<open>[- 1, 1]\<close>. The store's \<open>sqrt\<close> does not take a square
  root, so the dot product is divided by the product of the squared norms: for \<open>v = [2]\<close> the
  code returns \<open>1 / 4\<close> and \<open>- (1 / 4)\<close>, and for \<open>v = [1 / 2]\<close> it returns 4. Every value
  involved is a float32, so no rounding takes part.
\<close>

theorem cosineSimilarity_not_normalised:
  "cosineSimilarity [Num 2] [Num 2] = Num (1 / 4)
   \<and> cosineSimilarity [Num 2] [Num (- 2)] = Num (- (1 / 4))
   \<and> cosineSimilarity [Num (1 / 2)] [Num (1 / 2)] = Num 4"
  by (simp add: cosineSimilarity_def cosine_loop.simps cosine_divisor_def sqrt_poc_def
      to_float64_def to_float32_def feq_def cos_vals)

section \<open>Properties of the sort\<close>

text \<open>The inner loop at \<open>i\<close> permutes the list, leaves the positions before \<open>i\<close> alone, and
  brings to position \<open>i\<close> an element whose score no later element exceeds.\<close>

lemma mset_sortScored_inner:
  "i < j \<Longrightarrow> mset (sortScored_inner i j xs) = mset xs"
proof (induction i j xs rule: sortScored_inner.induct)
  case (1 i j xs)
  show ?case
  proof (cases "j < length xs")
    case True
    let ?ys = "if flt (score (xs ! i)) (score (xs ! j)) then xs[i := xs ! j, j := xs ! i] else xs"
    from True "1.prems" have "mset ?ys = mset xs"
      by (simp add: mset_swap)
    moreover from "1.IH"[OF True] "1.prems" have "mset (sortScored_inner i (j + 1) ?ys) = mset ?ys"
      by simp
    ultimately show ?thesis
      using True by (subst sortScored_inner.simps) simp
  next
    case False
    then show ?thesis by (subst sortScored_inner.simps) simp
  qed
qed

lemma take_sortScored_inner:
  "i < j \<Longrightarrow> take i (sortScored_inner i j xs) = take i xs"
proof (induction i j xs rule: sortScored_inner.induct)
  case (1 i j xs)
  show ?case
  proof (cases "j < length xs")
    case True
    let ?ys = "if flt (score (xs ! i)) (score (xs ! j)) then xs[i := xs ! j, j := xs ! i] else xs"
    from "1.prems" have "take i ?ys = take i xs"
      by simp
    moreover from "1.IH"[OF True] "1.prems" have "take i (sortScored_inner i (j + 1) ?ys) = take i ?ys"
      by simp
    ultimately show ?thesis
      using True by (subst sortScored_inner.simps) simp
  next
    case False
    then show ?thesis by (subst sortScored_inner.simps) simp
  qed
qed

lemma max_sortScored_inner:
  "i < j \<Longrightarrow> \<forall>x\<in>set xs. score x \<noteq> NaN \<Longrightarrow>
   \<forall>k. i < k \<and> k < j \<and> k < length xs \<longrightarrow> fle (score (xs ! k)) (score (xs ! i)) \<Longrightarrow>
   \<forall>k. i < k \<and> k < length xs \<longrightarrow>
       fle (score (sortScored_inner i j xs ! k)) (score (sortScored_inner i j xs ! i))"
proof (induction i j xs rule: sortScored_inner.induct)
  case (1 i j xs)
  show ?case
  proof (cases "j < length xs")
    case True
    let ?ys = "if flt (score (xs ! i)) (score (xs ! j)) then xs[i := xs ! j, j := xs ! i] else xs"
    have len: "length ?ys = length xs" by simp
    from True "1.prems"(1) have il: "i < length xs" by simp
    from True il have "mset ?ys = mset xs" by (simp add: mset_swap)
    then have "set ?ys = set xs" by (rule mset_eq_setD)
    with "1.prems"(2) have nan: "\<forall>x\<in>set ?ys. score x \<noteq> NaN" by simp
    from "1.prems"(2) True il have ni: "score (xs ! i) \<noteq> NaN" and nj: "score (xs ! j) \<noteq> NaN"
      by simp_all
    have inv: "\<forall>k. i < k \<and> k < j + 1 \<and> k < length ?ys \<longrightarrow> fle (score (?ys ! k)) (score (?ys ! i))"
    proof (intro allI impI)
      fix k assume k: "i < k \<and> k < j + 1 \<and> k < length ?ys"
      then have kl: "k < length xs" by (simp split: if_splits)
      show "fle (score (?ys ! k)) (score (?ys ! i))"
      proof (cases "flt (score (xs ! i)) (score (xs ! j))")
        case swap: True
        then have ij: "fle (score (xs ! i)) (score (xs ! j))" by (rule flt_imp_fle)
        show ?thesis
        proof (cases "k = j")
          case True
          with swap ij k "1.prems"(1) \<open>j < length xs\<close> show ?thesis
            by (simp add: nth_list_update)
        next
          case False
          with k have "k < j" by simp
          with k kl "1.prems"(3) have "fle (score (xs ! k)) (score (xs ! i))" by simp
          then have "fle (score (xs ! k)) (score (xs ! j))" using ij by (rule fle_trans)
          with swap k False "1.prems"(1) \<open>j < length xs\<close> show ?thesis
            by (simp add: nth_list_update)
        qed
      next
        case noswap: False
        show ?thesis
        proof (cases "k = j")
          case True
          from not_flt_imp_fle[OF ni nj noswap] True noswap show ?thesis by simp
        next
          case False
          with k have "k < j" by simp
          with k kl "1.prems"(3) noswap show ?thesis by simp
        qed
      qed
    qed
    from "1.IH"[OF True _ nan inv] "1.prems"(1)
    have "\<forall>k. i < k \<and> k < length ?ys \<longrightarrow>
       fle (score (sortScored_inner i (j + 1) ?ys ! k)) (score (sortScored_inner i (j + 1) ?ys ! i))"
      by simp
    then show ?thesis
      using True by (subst (1 2) sortScored_inner.simps) simp
  next
    case False
    with "1.prems" show ?thesis
      by (subst (1 2) sortScored_inner.simps) simp
  qed
qed

lemma mset_drop_sortScored_inner:
  assumes "i < j"
  shows "mset (drop i (sortScored_inner i j xs)) = mset (drop i xs)"
proof -
  let ?ys = "sortScored_inner i j xs"
  have "mset (take i ?ys) + mset (drop i ?ys) = mset (take i xs) + mset (drop i xs)"
    unfolding mset_append[symmetric] append_take_drop_id
    using assms by (rule mset_sortScored_inner)
  with take_sortScored_inner[OF assms, of xs] show ?thesis by simp
qed

text \<open>The outer loop: the prefix before \<open>i\<close> is sorted by descending score and dominates
  the rest.\<close>

lemma mset_sortScored_outer: "mset (sortScored_outer i xs) = mset xs"
proof (induction i xs rule: sortScored_outer.induct)
  case (1 i xs)
  show ?case
  proof (cases "i < length xs")
    case True
    with "1.IH" mset_sortScored_inner[of i "i + 1" xs] show ?thesis
      by (subst sortScored_outer.simps) simp
  next
    case False
    then show ?thesis by (subst sortScored_outer.simps) simp
  qed
qed

lemma sorted_sortScored_outer:
  "i \<le> length xs \<Longrightarrow> \<forall>x\<in>set xs. score x \<noteq> NaN \<Longrightarrow>
   sorted_wrt (\<lambda>x y. fle (score y) (score x)) (take i xs) \<Longrightarrow>
   \<forall>x\<in>set (take i xs). \<forall>y\<in>set (drop i xs). fle (score y) (score x) \<Longrightarrow>
   sorted_wrt (\<lambda>x y. fle (score y) (score x)) (sortScored_outer i xs)"
proof (induction i xs rule: sortScored_outer.induct)
  case (1 i xs)
  show ?case
  proof (cases "i < length xs")
    case True
    let ?ys = "sortScored_inner i (i + 1) xs"
    have len: "length ?ys = length xs" by simp
    have "mset ?ys = mset xs"
      by (rule mset_sortScored_inner) simp
    then have "set ?ys = set xs" by (rule mset_eq_setD)
    with "1.prems"(2) have nan: "\<forall>x\<in>set ?ys. score x \<noteq> NaN" by simp
    have tk: "take i ?ys = take i xs"
      by (rule take_sortScored_inner) simp
    have "mset (drop i ?ys) = mset (drop i xs)"
      by (rule mset_drop_sortScored_inner) simp
    then have dr: "set (drop i ?ys) = set (drop i xs)"
      by (rule mset_eq_setD)
    have "\<forall>k. i < k \<and> k < i + 1 \<and> k < length xs \<longrightarrow> fle (score (xs ! k)) (score (xs ! i))"
      by auto
    with "1.prems"(2) have mx: "\<forall>k. i < k \<and> k < length xs \<longrightarrow> fle (score (?ys ! k)) (score (?ys ! i))"
      by (intro max_sortScored_inner) simp_all
    from True len have "take (Suc i) ?ys = take i ?ys @ [?ys ! i]"
      by (simp only: take_Suc_conv_app_nth)
    with tk have tk1: "take (i + 1) ?ys = take i xs @ [?ys ! i]"
      by simp
    from True len have "?ys ! i \<in> set (drop i ?ys)"
      by (metis Cons_nth_drop_Suc list.set_intros(1))
    with dr have yi: "?ys ! i \<in> set (drop i xs)" by simp
    have srt: "sorted_wrt (\<lambda>x y. fle (score y) (score x)) (take (i + 1) ?ys)"
      unfolding tk1 using "1.prems"(3,4) yi by (simp add: sorted_wrt_append)
    have bnd: "\<forall>x\<in>set (take (i + 1) ?ys). \<forall>y\<in>set (drop (i + 1) ?ys). fle (score y) (score x)"
    proof (intro ballI)
      fix x y assume x: "x \<in> set (take (i + 1) ?ys)" and y: "y \<in> set (drop (i + 1) ?ys)"
      from y have ydr: "y \<in> set (drop i ?ys)"
        by (metis Suc_eq_plus1 in_set_dropD drop_drop add.commute)
      from x tk1 consider "x \<in> set (take i xs)" | "x = ?ys ! i" by auto
      then show "fle (score y) (score x)"
      proof cases
        case 1
        with "1.prems"(4) ydr dr show ?thesis by simp
      next
        case 2
        from y obtain k where "k < length ?ys - (i + 1)" "y = drop (i + 1) ?ys ! k"
          by (auto simp: in_set_conv_nth)
        then have "y = ?ys ! (i + 1 + k)" "i + 1 + k < length xs"
          by simp_all
        with mx 2 show ?thesis by simp
      qed
    qed
    from True have "i + 1 \<le> length ?ys" by simp
    from "1.IH"[OF True this nan srt bnd] True show ?thesis
      by (subst sortScored_outer.simps) simp
  next
    case False
    with "1.prems" have "take i xs = xs" by simp
    with "1.prems"(3) False show ?thesis
      by (subst sortScored_outer.simps) simp
  qed
qed

lemma sorted_sortScored:
  "\<forall>x\<in>set xs. score x \<noteq> NaN \<Longrightarrow> sorted_wrt (\<lambda>x y. fle (score y) (score x)) (sortScored xs)"
  unfolding sortScored_def by (rule sorted_sortScored_outer) simp_all

lemma mset_sortScored: "mset (sortScored xs) = mset xs"
  unfolding sortScored_def by (rule mset_sortScored_outer)

section \<open>Properties of Search\<close>

text \<open>The two permission loops decide whether the filter and the item's permissions
  intersect; the scan keeps exactly the eligible items, in the order visited.\<close>

lemma itemPerm_loop_iff: "itemPerm_loop p perms \<longleftrightarrow> p \<in> set perms"
  by (induction perms) auto

lemma hasPermission_iff: "hasPermission f perms \<longleftrightarrow> set perms \<inter> set f \<noteq> {}"
  by (induction f) (auto simp: itemPerm_loop_iff)

lemma scan_eligible:
  "scan now params m ks =
     map (\<lambda>it. \<lparr>item = it, score = cosineSimilarity (p_Vector params) (Vector it)\<rparr>)
       (eligible_items now params m ks)"
  by (induction ks)
     (auto simp: eligible_items_def visited_def List.map_filter_simps eligible_def hasPermission_iff
           split: option.splits)

lemma set_visited: "set ks = dom m \<Longrightarrow> set (visited m ks) = ran m"
  by (force simp: visited_def map_filter_def ran_def dom_def)

lemma set_eligible_items:
  "iteration_order m ks \<Longrightarrow> set (eligible_items now params m ks) = {it \<in> ran m. eligible now params it}"
  by (auto simp: eligible_items_def iteration_order_def set_visited)

lemma scan_results:
  "map to_result (scan now params m ks) = map (result_of params) (eligible_items now params m ks)"
  by (simp add: scan_eligible result_of_def)

lemma limit_results_split:
  "\<exists>rest. limit_results n xs @ rest = xs
     \<and> (rest \<noteq> [] \<longrightarrow> 0 < n \<and> int (length (limit_results n xs)) = n)"
proof (cases "0 < n \<and> n < int (length xs)")
  case True
  then have "nat n \<le> length xs" by linarith
  with True have "take (nat n) xs @ drop (nat n) xs = xs" "int (length (take (nat n) xs)) = n"
    by (simp_all add: min_absorb2)
  with True show ?thesis
    unfolding limit_results_def by (intro exI[of _ "drop (nat n) xs"]) simp
next
  case False
  then show ?thesis
    unfolding limit_results_def by (intro exI[of _ "[]"]) auto
qed

lemma limit_results_length: "0 < n \<Longrightarrow> int (length (limit_results n xs)) \<le> n"
  by (simp add: limit_results_def)

lemma limit_results_all: "n \<le> 0 \<or> int (length xs) \<le> n \<Longrightarrow> limit_results n xs = xs"
  by (auto simp: limit_results_def)

lemma r_Score_to_result: "r_Score (to_result x) = score x"
  by (simp add: to_result_def)

lemma fle_NaN_right [simp]: "fle x NaN = False"
  by (cases x) simp_all

text \<open>
  C3, as the code has it. On an open store, whose keys the range visits each once,
  \<open>Search\<close> returns results of eligible items, each at most once, cut to the first
  \<open>Limit\<close> when \<open>Limit > 0\<close>, and items are omitted (\<open>rest\<close>) only when the limit is
  reached. When no eligible item's score is NaN, the results are sorted by score
  descending and every omitted item scores no higher than any returned one. Nothing is
  said about the order of equal scores: it is the order in which the range over the map
  happened to visit them. A NaN score (from an overflow of the \<open>float32\<close> products)
  compares false with everything, and the sort leaves it where the range put it.
\<close>

theorem search_ranking:
  assumes "\<not> closed_flag s" and "iteration_order (items s) ks"
  shows "\<exists>rs rest.
      Search now s params ks = Inr rs
      \<and> (0 < p_Limit params \<longrightarrow> int (length rs) \<le> p_Limit params)
      \<and> mset (rs @ rest) = mset (map (result_of params) (eligible_items now params (items s) ks))
      \<and> set (eligible_items now params (items s) ks)
          = {it \<in> ran (items s). eligible now params it}
      \<and> (rest \<noteq> [] \<longrightarrow> 0 < p_Limit params \<and> int (length rs) = p_Limit params)
      \<and> ((\<forall>it\<in>set (eligible_items now params (items s) ks).
              cosineSimilarity (p_Vector params) (Vector it) \<noteq> NaN) \<longrightarrow>
           sorted_wrt (\<lambda>x y. fle (r_Score y) (r_Score x)) rs
           \<and> (\<forall>x\<in>set rs. \<forall>y\<in>set rest. fle (r_Score y) (r_Score x)))"
proof -
  let ?sc = "scan now params (items s) ks"
  let ?srt = "sortScored ?sc"
  let ?lim = "limit_results (p_Limit params) ?srt"
  let ?rs = "map to_result ?lim"
  obtain rest0 where split: "?lim @ rest0 = ?srt"
    and full: "rest0 \<noteq> [] \<longrightarrow> 0 < p_Limit params \<and> int (length ?lim) = p_Limit params"
    using limit_results_split[of "p_Limit params" ?srt] by blast
  let ?rest = "map to_result rest0"
  have "Search now s params ks = Inr ?rs"
    using assms(1) by (simp add: Search_def)
  moreover have "set (eligible_items now params (items s) ks)
      = {it \<in> ran (items s). eligible now params it}"
    using assms(2) by (rule set_eligible_items)
  moreover have "0 < p_Limit params \<longrightarrow> int (length ?rs) \<le> p_Limit params"
    by (simp add: limit_results_length)
  moreover have "mset (?rs @ ?rest) = mset (map (result_of params) (eligible_items now params (items s) ks))"
  proof -
    have "mset (?rs @ ?rest) = mset (map to_result (?lim @ rest0))" by simp
    also have "\<dots> = image_mset to_result (mset ?sc)"
      unfolding split by (simp add: mset_sortScored)
    also have "\<dots> = mset (map to_result ?sc)" by simp
    finally show ?thesis by (simp only: scan_results)
  qed
  moreover have "?rest \<noteq> [] \<longrightarrow> 0 < p_Limit params \<and> int (length ?rs) = p_Limit params"
    using full by simp
  moreover have "sorted_wrt (\<lambda>x y. fle (r_Score y) (r_Score x)) ?rs
      \<and> (\<forall>x\<in>set ?rs. \<forall>y\<in>set ?rest. fle (r_Score y) (r_Score x))"
    if "\<forall>it\<in>set (eligible_items now params (items s) ks).
          cosineSimilarity (p_Vector params) (Vector it) \<noteq> NaN"
  proof -
    from that have "\<forall>x\<in>set ?sc. score x \<noteq> NaN"
      by (simp add: scan_eligible)
    then have "sorted_wrt (\<lambda>x y. fle (score y) (score x)) ?srt"
      by (rule sorted_sortScored)
    then have srt: "sorted_wrt (\<lambda>x y. fle (score y) (score x)) (?lim @ rest0)"
      unfolding split .
    then show ?thesis
      by (auto simp: sorted_wrt_append sorted_wrt_map r_Score_to_result)
  qed
  ultimately show ?thesis by blast
qed

text \<open>
  C7. On an open store, whose keys the range visits each once: the items the scan scores
  are exactly the stored items whose expiry has not passed and whose permissions, when the
  filter is not empty, intersect the filter. Every result returned comes from such an
  item, and all of them are returned when the limit does not cut the list. With an empty
  filter the eligible items are the non-expired ones.
\<close>

theorem search_eligibility:
  assumes "\<not> closed_flag s" and "iteration_order (items s) ks"
  shows "\<exists>rs.
      Search now s params ks = Inr rs
      \<and> item ` set (scan now params (items s) ks) = {it \<in> ran (items s). eligible now params it}
      \<and> set rs \<subseteq> result_of params ` {it \<in> ran (items s). eligible now params it}
      \<and> (p_Limit params \<le> 0 \<or> int (length (scan now params (items s) ks)) \<le> p_Limit params \<longrightarrow>
           set rs = result_of params ` {it \<in> ran (items s). eligible now params it})
      \<and> (p_PermissionFilter params = [] \<longrightarrow>
           {it \<in> ran (items s). eligible now params it} = {it \<in> ran (items s). \<not> expired now it})"
proof -
  let ?sc = "scan now params (items s) ks"
  let ?E = "{it \<in> ran (items s). eligible now params it}"
  let ?rs = "map to_result (limit_results (p_Limit params) (sortScored ?sc))"
  have el: "set (eligible_items now params (items s) ks) = ?E"
    using assms(2) by (rule set_eligible_items)
  have all: "set (map to_result (sortScored ?sc)) = result_of params ` ?E"
  proof -
    have "set (sortScored ?sc) = set ?sc"
      using mset_sortScored[of ?sc] by (rule mset_eq_setD)
    then have "set (map to_result (sortScored ?sc)) = set (map to_result ?sc)"
      by simp
    also have "\<dots> = result_of params ` ?E"
      unfolding scan_results using el by simp
    finally show ?thesis .
  qed
  have "Search now s params ks = Inr ?rs"
    using assms(1) by (simp add: Search_def)
  moreover have "item ` set ?sc = ?E"
    unfolding scan_eligible using el by (simp add: image_image)
  moreover have "set ?rs \<subseteq> result_of params ` ?E"
  proof -
    have "set (limit_results (p_Limit params) (sortScored ?sc)) \<subseteq> set (sortScored ?sc)"
      by (auto simp: limit_results_def dest: in_set_takeD)
    then have "set ?rs \<subseteq> set (map to_result (sortScored ?sc))"
      by auto
    with all show ?thesis by simp
  qed
  moreover have "set ?rs = result_of params ` ?E"
    if "p_Limit params \<le> 0 \<or> int (length ?sc) \<le> p_Limit params"
  proof -
    have "length (sortScored ?sc) = length ?sc"
      using mset_sortScored[of ?sc] by (rule mset_eq_length)
    with that have "limit_results (p_Limit params) (sortScored ?sc) = sortScored ?sc"
      by (intro limit_results_all) simp
    with all show ?thesis by simp
  qed
  moreover have "?E = {it \<in> ran (items s). \<not> expired now it}" if "p_PermissionFilter params = []"
    using that by (simp add: eligible_def)
  ultimately show ?thesis by blast
qed

subsection \<open>The example stores\<close>

lemma more_vals:
  "r32 2 = Num 2" "r32 16 = Num 16" "r64 (1 / 2) = Num (1 / 2)"
  using r32_exact[of 2 0] r32_exact[of 16 0] r64_frac[of 1 1] by simp_all

lemma cos_B: "cosineSimilarity [Num 1, Num 0] [Num 1, Num 0] = Num 1"
  by (simp add: cosineSimilarity_def cosine_loop.simps cosine_divisor_def sqrt_poc_def
      to_float64_def to_float32_def feq_def cos_vals)

lemma cos_C: "cosineSimilarity [Num 1, Num 0] [Num 2, Num 0] = Num (1 / 2)"
  by (simp add: cosineSimilarity_def cosine_loop.simps cosine_divisor_def sqrt_poc_def
      to_float64_def to_float32_def feq_def cos_vals more_vals)

lemma cos_D: "cosineSimilarity [Num 1, Num 0] [Num 4, Num 0] = Num (1 / 4)"
  by (simp add: cosineSimilarity_def cosine_loop.simps cosine_divisor_def sqrt_poc_def
      to_float64_def to_float32_def feq_def cos_vals more_vals)

lemma big_vals:
  "r32 (two_40 * two_100) = PosInf" "r32 (two_100 * two_100) = PosInf"
  "r32 (two_40 * two_40) = Num (two_40 * two_40)" "r64 (two_40 * two_40) = Num (two_40 * two_40)"
  "r32 two_40 = Num two_40" "r64 two_40 = Num two_40"
  "r64 (two_40 / (two_40 * two_40)) = Num (1 / two_40)" "r64 (1 / two_40) = Num (1 / two_40)"
  unfolding two_40_def two_100_def
  using r32_exact[of 1 80] r64_exact[of 1 80] r32_exact[of 1 40] r64_exact[of 1 40]
    r64_frac[of 1 40]
  by (simp_all add: r32_overflow)

lemma two_40_nonzero: "two_40 * two_40 \<noteq> 0" "two_40 \<noteq> 0"
  by (simp_all add: two_40_def)

lemma cos_huge: "cosineSimilarity [Num two_40] [Num two_100] = NaN"
  by (simp add: cosineSimilarity_def cosine_loop.simps cosine_divisor_def sqrt_poc_def
      to_float64_def to_float32_def feq_def big_vals two_40_nonzero signed_inf_def is_neg_def)

lemma cos_one: "cosineSimilarity [Num two_40] [Num 1] = Num (1 / two_40)"
  by (simp add: cosineSimilarity_def cosine_loop.simps cosine_divisor_def sqrt_poc_def
      to_float64_def to_float32_def feq_def big_vals two_40_nonzero cos_vals
      del: divide_divide_eq_left)

lemma items_store_AB: "items store_AB = [''A'' \<mapsto> item_A, ''B'' \<mapsto> item_B]"
  by (simp add: store_AB_def NewQdrantStore_def Store_def item_A_def item_B_def)

lemma open_store_AB: "\<not> closed_flag store_AB"
  by (simp add: store_AB_def NewQdrantStore_def Store_def)

lemma order_store_AB:
  "iteration_order (items store_AB) [''A'', ''B'']" "iteration_order (items store_AB) [''B'', ''A'']"
  by (auto simp: items_store_AB iteration_order_def)

lemma search_all_BA:
  "Search 0 store_AB query_all [''B'', ''A'']
     = Inr [result_of query_all item_B, result_of query_all item_A]"
  by (simp add: Search_def open_store_AB items_store_AB expired_def IsZero_def query_all_def
      item_A_def item_B_def sortScored_def sortScored_outer.simps sortScored_inner.simps
      limit_results_def result_of_def cos_B)

lemma search_all_AB:
  "Search 0 store_AB query_all [''A'', ''B'']
     = Inr [result_of query_all item_A, result_of query_all item_B]"
  by (simp add: Search_def open_store_AB items_store_AB expired_def IsZero_def query_all_def
      item_A_def item_B_def sortScored_def sortScored_outer.simps sortScored_inner.simps
      limit_results_def result_of_def cos_B)

lemma search_u1:
  "Search 0 store_AB query_u1 [''A'', ''B''] = Inr [result_of query_u1 item_A]"
  by (simp add: Search_def open_store_AB items_store_AB expired_def IsZero_def query_u1_def
      item_A_def item_B_def sortScored_def sortScored_outer.simps sortScored_inner.simps
      limit_results_def result_of_def cos_B)

lemma items_store_HO: "items store_HO = [''H'' \<mapsto> item_huge, ''O'' \<mapsto> item_one]"
  by (simp add: store_HO_def NewQdrantStore_def Store_def item_huge_def item_one_def)

lemma open_store_HO: "\<not> closed_flag store_HO"
  by (simp add: store_HO_def NewQdrantStore_def Store_def)

lemma order_store_HO: "iteration_order (items store_HO) [''H'', ''O'']"
  by (auto simp: items_store_HO iteration_order_def)

lemma scores_HO:
  "r_Score (result_of query_big item_huge) = NaN"
  "r_Score (result_of query_big item_one) = Num (1 / two_40)"
  by (simp_all add: result_of_def to_result_def query_big_def item_huge_def item_one_def
      cos_huge cos_one)

lemma search_big:
  "Search 0 store_HO query_big [''H'', ''O'']
     = Inr [result_of query_big item_huge, result_of query_big item_one]"
  by (simp add: Search_def open_store_HO items_store_HO expired_def IsZero_def query_big_def
      item_huge_def item_one_def sortScored_def sortScored_outer.simps sortScored_inner.simps
      limit_results_def result_of_def cos_huge cos_one)

lemma search_big_top1:
  "Search 0 store_HO (query_big\<lparr>p_Limit := 1\<rparr>) [''H'', ''O'']
     = Inr [result_of query_big item_huge]"
  by (simp add: Search_def open_store_HO items_store_HO expired_def IsZero_def query_big_def
      item_huge_def item_one_def sortScored_def sortScored_outer.simps sortScored_inner.simps
      limit_results_def result_of_def cos_huge cos_one)

text \<open>
  C3 as the specification states it does not hold. The items \<open>A\<close> and \<open>B\<close> score the same;
  when the range visits \<open>B\<close> first, \<open>B\<close> is returned before \<open>A\<close>, which is not "ties by id
  ascending", and the result differs from the one for the other order of the same store.
  And the results need not be sorted by score at all: the product of the query \<open>2\<^sup>4\<^sup>0\<close>
  and the item \<open>2\<^sup>1\<^sup>0\<^sup>0\<close> overflows \<open>float32\<close>, the item's score is NaN, the sort leaves it
  first, and with \<open>Limit = 1\<close> it is returned instead of the item that has a score.
\<close>

theorem search_tie_counterexample:
  "iteration_order (items store_AB) [''B'', ''A'']
   \<and> Search 0 store_AB query_all [''B'', ''A'']
       = Inr [result_of query_all item_B, result_of query_all item_A]
   \<and> \<not> sorted_wrt score_then_id [result_of query_all item_B, result_of query_all item_A]
   \<and> iteration_order (items store_AB) [''A'', ''B'']
   \<and> Search 0 store_AB query_all [''A'', ''B'']
       = Inr [result_of query_all item_A, result_of query_all item_B]
   \<and> iteration_order (items store_HO) [''H'', ''O'']
   \<and> Search 0 store_HO query_big [''H'', ''O'']
       = Inr [result_of query_big item_huge, result_of query_big item_one]
   \<and> r_Score (result_of query_big item_huge) = NaN
   \<and> r_Score (result_of query_big item_one) = Num (1 / two_40)
   \<and> \<not> sorted_wrt (\<lambda>x y. fle (r_Score y) (r_Score x))
         [result_of query_big item_huge, result_of query_big item_one]
   \<and> Search 0 store_HO (query_big\<lparr>p_Limit := 1\<rparr>) [''H'', ''O'']
       = Inr [result_of query_big item_huge]"
proof -
  have "\<not> sorted_wrt score_then_id [result_of query_all item_B, result_of query_all item_A]"
    by (simp add: score_then_id_def result_of_def to_result_def item_A_def item_B_def
        query_all_def cos_B feq_def)
  moreover have "\<not> sorted_wrt (\<lambda>x y. fle (r_Score y) (r_Score x))
         [result_of query_big item_huge, result_of query_big item_one]"
    by (simp add: scores_HO)
  ultimately show ?thesis
    by (simp add: order_store_AB search_all_BA search_all_AB order_store_HO search_big
        scores_HO search_big_top1)
qed

lemma items_store_BCD:
  "items store_BCD = [''B'' \<mapsto> item_B, ''C'' \<mapsto> item_C, ''D'' \<mapsto> item_D]"
  by (simp add: store_BCD_def NewQdrantStore_def Store_def item_B_def item_C_def item_D_def)

lemma open_store_BCD: "\<not> closed_flag store_BCD"
  by (simp add: store_BCD_def NewQdrantStore_def Store_def)

lemma order_store_BCD: "iteration_order (items store_BCD) [''D'', ''B'', ''C'']"
  by (auto simp: items_store_BCD iteration_order_def)

lemma scores_BCD:
  "r_Score (result_of query_top2 item_B) = Num 1"
  "r_Score (result_of query_top2 item_C) = Num (1 / 2)"
  "r_Score (result_of query_top2 item_D) = Num (1 / 4)"
  by (simp_all add: result_of_def to_result_def query_top2_def item_B_def item_C_def item_D_def
      cos_B cos_C cos_D)

lemma eligible_BCD:
  "eligible_items 0 query_top2 (items store_BCD) [''D'', ''B'', ''C''] = [item_D, item_B, item_C]"
  by (simp add: eligible_items_def visited_def List.map_filter_simps items_store_BCD eligible_def
      expired_def IsZero_def query_top2_def item_B_def item_C_def item_D_def)

lemma search_top2:
  "Search 0 store_BCD query_top2 [''D'', ''B'', ''C'']
     = Inr [result_of query_top2 item_B, result_of query_top2 item_C]"
  by (simp add: Search_def open_store_BCD items_store_BCD expired_def IsZero_def query_top2_def
      item_B_def item_C_def item_D_def sortScored_def sortScored_outer.simps
      sortScored_inner.simps limit_results_def result_of_def cos_B cos_C cos_D)

theorem search_ranking_witness:
  "\<not> closed_flag store_BCD
   \<and> iteration_order (items store_BCD) [''D'', ''B'', ''C'']
   \<and> eligible_items 0 query_top2 (items store_BCD) [''D'', ''B'', ''C''] = [item_D, item_B, item_C]
   \<and> cosineSimilarity (p_Vector query_top2) (Vector item_D) = Num (1 / 4)
   \<and> cosineSimilarity (p_Vector query_top2) (Vector item_B) = Num 1
   \<and> cosineSimilarity (p_Vector query_top2) (Vector item_C) = Num (1 / 2)
   \<and> Search 0 store_BCD query_top2 [''D'', ''B'', ''C'']
       = Inr [result_of query_top2 item_B, result_of query_top2 item_C]
   \<and> sorted_wrt (\<lambda>x y. fle (r_Score y) (r_Score x))
        [result_of query_top2 item_B, result_of query_top2 item_C]
   \<and> fle (r_Score (result_of query_top2 item_D)) (r_Score (result_of query_top2 item_C))"
proof -
  have sc: "cosineSimilarity (p_Vector query_top2) (Vector item_D) = Num (1 / 4)"
    "cosineSimilarity (p_Vector query_top2) (Vector item_B) = Num 1"
    "cosineSimilarity (p_Vector query_top2) (Vector item_C) = Num (1 / 2)"
    by (simp_all add: query_top2_def item_B_def item_C_def item_D_def cos_B cos_C cos_D)
  then have nan: "\<forall>it\<in>set (eligible_items 0 query_top2 (items store_BCD) [''D'', ''B'', ''C'']).
      cosineSimilarity (p_Vector query_top2) (Vector it) \<noteq> NaN"
    by (simp add: eligible_BCD)
  from search_ranking [OF open_store_BCD order_store_BCD, of 0 query_top2] nan search_top2
  obtain rest where "sorted_wrt (\<lambda>x y. fle (r_Score y) (r_Score x))
        [result_of query_top2 item_B, result_of query_top2 item_C]"
    by auto
  moreover have "fle (r_Score (result_of query_top2 item_D)) (r_Score (result_of query_top2 item_C))"
    by (simp add: scores_BCD)
  ultimately show ?thesis
    using open_store_BCD order_store_BCD eligible_BCD sc search_top2 by simp
qed

lemma eligibility_AB:
  "eligible 0 query_u1 item_A" "\<not> eligible 0 query_u1 item_B"
  by (simp_all add: eligible_def expired_def IsZero_def query_u1_def item_A_def item_B_def)

theorem search_eligibility_witness:
  "\<not> closed_flag store_AB
   \<and> iteration_order (items store_AB) [''A'', ''B'']
   \<and> Search 0 store_AB query_u1 [''A'', ''B''] = Inr [result_of query_u1 item_A]
   \<and> eligible 0 query_u1 item_A
   \<and> \<not> eligible 0 query_u1 item_B"
proof -
  note search_eligibility [OF open_store_AB order_store_AB(1), of 0 query_u1]
  then have "\<exists>rs. Search 0 store_AB query_u1 [''A'', ''B''] = Inr rs" by blast
  with open_store_AB order_store_AB(1) search_u1 eligibility_AB show ?thesis by simp
qed

section \<open>Properties of the engine\<close>

subsection \<open>IndexDocument\<close>







lemma shift_chunks:
  "{f (i + j) |j. j < Suc n \<and> P (i + j)}
     = (if P i then {f i} else {}) \<union> {f (i + 1 + j) |j. j < n \<and> P (i + 1 + j)}"
  (is "?L = ?R")
proof (intro set_eqI iffI)
  fix x assume "x \<in> ?L"
  then obtain j where j: "x = f (i + j)" "j < Suc n" "P (i + j)" by blast
  show "x \<in> ?R"
  proof (cases j)
    case 0
    with j show ?thesis by simp
  next
    case (Suc k)
    with j have "x = f (i + 1 + k)" "k < n" "P (i + 1 + k)" by simp_all
    then show ?thesis by blast
  qed
next
  fix x assume "x \<in> ?R"
  then consider "P i" "x = f i" | k where "x = f (i + 1 + k)" "k < n" "P (i + 1 + k)"
    by (auto split: if_splits)
  then show "x \<in> ?L"
  proof cases
    case 1
    then have "x = f (i + 0)" "0 < Suc n" "P (i + 0)" by simp_all
    then show ?thesis by blast
  next
    case 2
    then have "x = f (i + Suc k)" "Suc k < Suc n" "P (i + Suc k)" by simp_all
    then show ?thesis by blast
  qed
qed

lemma embed_errors_Suc:
  "embed_errors doc ctx i (Suc n)
     = (case ctx i of None \<Rightarrow> [] | Some err \<Rightarrow> [EmbedError i (doc_DocumentID doc) err])
       @ embed_errors doc ctx (i + 1) n"
proof -
  have "[i..<i + Suc n] = i # [i + 1..<i + 1 + n]"
    by (simp add: upt_conv_Cons)
  then show ?thesis
    unfolding embed_errors_def by simp
qed

lemma embed_errors_0 [simp]: "embed_errors doc ctx i 0 = []"
  by (simp add: embed_errors_def)

text \<open>Alone on an open store, the loop stores the chunks that embed, logs the others and
  returns no error.\<close>

lemma IndexDocument_loop_alone:
  "\<not> closed_flag s \<Longrightarrow>
   IndexDocument_loop gen ctx now (\<lambda>i. []) e doc ps i cs s lg = (s', lg', err) \<Longrightarrow>
   err = None
   \<and> dom (items s') = dom (items s) \<union> {chunkID doc (i + j) |j. j < length cs \<and> ctx (i + j) = None}
   \<and> lg' = lg @ embed_errors doc ctx i (length cs)"
proof (induction cs arbitrary: i s lg)
  case Nil
  then show ?case by simp
next
  case (Cons c cs)
  let ?A = "{chunkID doc (i + j) |j. j < length (c # cs) \<and> ctx (i + j) = None}"
  let ?A' = "{chunkID doc (i + 1 + j) |j. j < length cs \<and> ctx (i + 1 + j) = None}"
  have shift: "?A = (if ctx i = None then {chunkID doc i} else {}) \<union> ?A'"
    using shift_chunks[of "chunkID doc" i "length cs" "\<lambda>k. ctx k = None"] by simp
  have errs: "embed_errors doc ctx i (length (c # cs))
      = (case ctx i of None \<Rightarrow> [] | Some err \<Rightarrow> [EmbedError i (doc_DocumentID doc) err])
        @ embed_errors doc ctx (i + 1) (length cs)"
    by (simp add: embed_errors_Suc)
  show ?case
  proof (cases "ctx i")
    case None
    define it where "it = chunk_item e doc ps (now i) i c (embedding_of gen (embedder e) c)"
    define s2 where "s2 = s\<lparr>items := (items s)(ID it \<mapsto> it)\<rparr>"
    from None Cons.prems
    have step: "IndexDocument_loop gen ctx now (\<lambda>i. []) e doc ps (i + 1) cs s2 lg = (s', lg', err)"
      by (simp add: Embed_def Store_def s2_def it_def)
    have op: "\<not> closed_flag s2" using Cons.prems(1) by (simp add: s2_def)
    have doms: "dom (items s2) = insert (chunkID doc i) (dom (items s))"
      by (simp add: s2_def it_def chunk_item_def)
    from Cons.IH[OF op step]
    have "err = None" and "dom (items s') = dom (items s2) \<union> ?A'"
      and "lg' = lg @ embed_errors doc ctx (i + 1) (length cs)"
      by blast+
    with doms shift errs None show ?thesis by auto
  next
    case (Some x)
    from Some Cons.prems
    have step: "IndexDocument_loop gen ctx now (\<lambda>i. []) e doc ps (i + 1) cs s
        (lg @ [EmbedError i (doc_DocumentID doc) x]) = (s', lg', err)"
      by (simp add: Embed_def)
    from Cons.IH[OF Cons.prems(1) step]
    have "err = None" and "dom (items s') = dom (items s) \<union> ?A'"
      and "lg' = (lg @ [EmbedError i (doc_DocumentID doc) x]) @ embed_errors doc ctx (i + 1) (length cs)"
      by blast+
    with shift errs Some show ?thesis by auto
  qed
qed


lemma open_NewEngine: "\<not> closed_flag (vectorStore NewEngine)"
  by (simp add: NewEngine_def NewQdrantStore_def)

lemma items_NewEngine: "items (vectorStore NewEngine) = Map.empty"
  by (simp add: NewEngine_def NewQdrantStore_def)



lemma chunkID_doc1:
  "chunkID doc1 0 = ''doc1-'' @ [CHR 0x00]" "chunkID doc1 1 = ''doc1-'' @ [CHR 0x01]"
  "chunkID doc1 (Suc 0) = ''doc1-'' @ [CHR 0x01]"
  by (simp_all add: chunkID_def doc1_def rune_string_def char_of_def)







text \<open>
  C2 on Scenario A. The content "hello world foo bar" gives, at chunk size 2, the chunks of
  \<open>doc1\<close>. Indexing \<open>doc1\<close> succeeds and stores two items; their ids are "doc1-" followed
  by the byte 0 and "doc1-" followed by the byte 1, since \<open>string(i)\<close> is the character
  with code \<open>i\<close> and not the decimal numeral of \<open>i\<close>. No item has the id "doc1-0" or
  "doc1-1". And ids do collide: the chunks 55296 and 55297 of one document get the same
  id, both indices being surrogate code points that \<open>string(i)\<close> renders as U+FFFD.
\<close>

theorem index_document_scenario_ids:
  "chunkContent 2 ''hello world foo bar'' = Some (Inr (doc_Content doc1))
   \<and> snd (IndexDocument gen (\<lambda>i. None) now NewEngine doc1 ps) = None
   \<and> dom (items (vectorStore (fst (IndexDocument gen (\<lambda>i. None) now NewEngine doc1 ps))))
       = {''doc1-'' @ [CHR 0x00], ''doc1-'' @ [CHR 0x01]}
   \<and> ''doc1-0'' \<notin> dom (items (vectorStore (fst (IndexDocument gen (\<lambda>i. None) now NewEngine doc1 ps))))
   \<and> ''doc1-1'' \<notin> dom (items (vectorStore (fst (IndexDocument gen (\<lambda>i. None) now NewEngine doc1 ps))))
   \<and> chunkID doc1 55296 = chunkID doc1 55297"
proof -
  obtain s1 lg1 err1 where l:
    "IndexDocument_loop gen (\<lambda>i. None) now (\<lambda>i. []) NewEngine doc1 ps 0 (doc_Content doc1)
       (vectorStore NewEngine) (logger NewEngine) = (s1, lg1, err1)"
    by (metis prod_cases3)
  have res: "IndexDocument gen (\<lambda>i. None) now NewEngine doc1 ps
      = (NewEngine\<lparr>vectorStore := s1, logger := lg1\<rparr>, err1)"
    by (simp add: IndexDocument_def IndexDocument_among_def l)
  from IndexDocument_loop_alone[OF open_NewEngine l]
  have e1: "err1 = None"
    by blast
  have content: "doc_Content doc1 = [''hello world'', ''foo bar'']"
    by (simp add: doc1_def)
  from l open_NewEngine
  have "dom (items s1) = {chunkID doc1 (Suc 0), chunkID doc1 0}"
    unfolding content
    by (clarsimp simp: Embed_def Store_def chunk_item_def items_NewEngine)
  then have d: "dom (items s1) = {''doc1-'' @ [CHR 0x00], ''doc1-'' @ [CHR 0x01]}"
    unfolding chunkID_doc1 by (simp only: insert_commute)
  have "chunkContent 2 ''hello world foo bar'' = Some (Inr (doc_Content doc1))"
    by (simp add: chunkContent_def Fields_def isSpace_def chunk_loop.simps doc1_def)
  moreover have "chunkID doc1 55296 = chunkID doc1 55297"
    by (simp add: chunkID_def rune_string_def)
  ultimately show ?thesis
    unfolding res using e1 d by simp
qed

subsection \<open>Engine.Search\<close>

text \<open>
  C10, as the code has it. \<open>Engine.Search\<close> embeds the query first. When the embedding
  succeeds and the request has \<open>Limit \<le> 0\<close>, the engine writes 10 into the caller's
  request, queries the store with limit 10, and leaves the request's other fields as they
  were; with \<open>Limit > 0\<close> the request is not written to. When the embedding fails (the
  context is done), the call returns that error and the request is untouched.
\<close>

theorem engine_search_limit_default:
  "(ctx = None \<and> req_Limit req \<le> 0 \<longrightarrow>
      fst (Engine_Search gen ctx now e req ks) = req\<lparr>req_Limit := 10\<rparr>
      \<and> snd (Engine_Search gen ctx now e req ks)
          = (case Search now (vectorStore e)
                    \<lparr>p_Vector = embedding_of gen (embedder e) (req_Query req), p_Limit = 10,
                     p_PermissionFilter = req_Permissions req\<rparr> ks of
               Inl err \<Rightarrow> Inl err
             | Inr results \<Rightarrow> Inr (map to_engine_result results)))
   \<and> (ctx = None \<and> 0 < req_Limit req \<longrightarrow> fst (Engine_Search gen ctx now e req ks) = req)
   \<and> (\<forall>err. ctx = Some err \<longrightarrow> Engine_Search gen ctx now e req ks = (req, Inl err))
   \<and> req_Query (fst (Engine_Search gen ctx now e req ks)) = req_Query req
   \<and> req_UserID (fst (Engine_Search gen ctx now e req ks)) = req_UserID req
   \<and> req_Permissions (fst (Engine_Search gen ctx now e req ks)) = req_Permissions req"
  by (cases ctx) (auto simp: Engine_Search_def Embed_def Let_def split: sum.splits)

theorem engine_search_limit_default_witness:
  "req_Limit request0 \<le> 0
   \<and> fst (Engine_Search (\<lambda>_ _. Num 0) None 0 NewEngine request0 []) = request0\<lparr>req_Limit := 10\<rparr>
   \<and> snd (Engine_Search (\<lambda>_ _. Num 0) None 0 NewEngine request0 []) = Inr []
   \<and> Engine_Search (\<lambda>_ _. Num 0) (Some DeadlineExceeded) 0 NewEngine request0 []
       = (request0, Inl DeadlineExceeded)"
proof -
  have lim: "req_Limit request0 \<le> 0"
    by (simp add: request0_def)
  have srch: "Search 0 (vectorStore NewEngine) p [] = Inr []" for p
    using open_NewEngine
    by (simp add: Search_def sortScored_def sortScored_outer.simps limit_results_def)
  note a = engine_search_limit_default [where ctx = None and req = request0
      and gen = "\<lambda>_ _. Num 0" and now = 0 and e = NewEngine and ks = "[]"]
  note b = engine_search_limit_default [where ctx = "Some DeadlineExceeded" and req = request0
      and gen = "\<lambda>_ _. Num 0" and now = 0 and e = NewEngine and ks = "[]"]
  from a lim have "fst (Engine_Search (\<lambda>_ _. Num 0) None 0 NewEngine request0 []) = request0\<lparr>req_Limit := 10\<rparr>"
    by blast
  moreover from a lim have "snd (Engine_Search (\<lambda>_ _. Num 0) None 0 NewEngine request0 [])
          = (case Search 0 (vectorStore NewEngine)
                    \<lparr>p_Vector = embedding_of (\<lambda>_ _. Num 0) (embedder NewEngine) (req_Query request0),
                     p_Limit = 10, p_PermissionFilter = req_Permissions request0\<rparr> [] of
               Inl err \<Rightarrow> Inl err
             | Inr results \<Rightarrow> Inr (map to_engine_result results))"
    by blast
  then have "snd (Engine_Search (\<lambda>_ _. Num 0) None 0 NewEngine request0 []) = Inr []"
    by (simp add: srch)
  moreover from b have "Engine_Search (\<lambda>_ _. Num 0) (Some DeadlineExceeded) 0 NewEngine request0 []
       = (request0, Inl DeadlineExceeded)"
    by blast
  ultimately show ?thesis using lim by blast
qed

text \<open>
  C10 as stated for every call does not hold when the context is already cancelled: the
  request has \<open>Limit = 0\<close>, and after the call it still has.
\<close>

theorem engine_search_limit_counterexample:
  "req_Limit request0 \<le> 0
   \<and> fst (Engine_Search (\<lambda>_ _. Num 0) (Some Canceled) 0 NewEngine request0 []) = request0
   \<and> req_Limit (fst (Engine_Search (\<lambda>_ _. Num 0) (Some Canceled) 0 NewEngine request0 [])) \<noteq> 10"
  by (simp add: Engine_Search_def Embed_def request0_def)

end
